theory Spec2Isabelle
  imports Main "HOL-Library.Sublist" "HOL-Library.AList"
begin

section \<open>The package registry of the genception driver\<close>

text \<open>
  A shallow embedding of \<^verbatim>\<open>tools/genception/driver/packageregistry.go\<close>.

  Go strings are byte sequences and so are HOL strings. A Go map that the code only looks
  up and stores into is a HOL map; a Go map that the code also ranges over is an
  association list with unique keys, looked up with \<open>map_of\<close> and stored into with
  \<open>AList.update\<close>, so that a \<^verbatim>\<open>range\<close> loop has a sequence to run over. Go leaves the
  order of a \<^verbatim>\<open>range\<close> over a map open: the theorems below speak of sets and of
  \<open>map_of\<close>, and hold for every order of the list.

  The registry holds pointers to packages; the model holds the packages themselves, each
  entry owning its node. A runtime panic is an \<open>error\<close> value.
\<close>

subsection \<open>Data\<close>

text \<open>
  The struct \<^verbatim>\<open>FlatPackage\<close> is declared in another file of the package; the record has the
  fields the registry reads and writes.
\<close>

record FlatPackage =
  ID :: string
  PkgPath :: string
  GoFiles :: "string list"
  Imports :: "(string \<times> string) list"
  Standard :: bool

record PackageRegistry =
  packages :: "(string \<times> FlatPackage) list"
  stdlib :: "string \<rightharpoonup> string"

datatype error = IndexOutOfRange | ResolveFailure string

text \<open>
  Modelled from the spec: the method \<^verbatim>\<open>IsStdlib\<close> of \<^verbatim>\<open>FlatPackage\<close> is declared outside the
  given sources; the spec calls it the node's standard-library flag, which \<^verbatim>\<open>Match\<close> reads
  as the field \<^verbatim>\<open>Standard\<close>.
\<close>

definition IsStdlib :: "FlatPackage \<Rightarrow> bool" where
  "IsStdlib pkg = Standard pkg"

definition lookup :: "PackageRegistry \<Rightarrow> string \<Rightarrow> FlatPackage option" where
  "lookup pr k = map_of (packages pr) k"

definition store :: "string \<Rightarrow> FlatPackage \<Rightarrow> PackageRegistry \<Rightarrow> PackageRegistry" where
  "store k pkg pr = pr\<lparr>packages := AList.update k pkg (packages pr)\<rparr>"

definition emptyRegistry :: PackageRegistry where
  "emptyRegistry = \<lparr>packages = [], stdlib = Map.empty\<rparr>"

subsection \<open>Canonical identifiers\<close>

definition stdlibPrefix :: string where
  "stdlibPrefix = ''@@io_bazel_rules_go//stdlib:''"

definition canonicalizeId :: "string \<Rightarrow> string \<Rightarrow> FlatPackage \<Rightarrow> string" where
  "canonicalizeId path ident pkg =
     (if prefix stdlibPrefix ident then drop (length stdlibPrefix) ident
      else if IsStdlib pkg then ident
      else path)"

text \<open>
  \<^verbatim>\<open>rewritePackage\<close> changes the package it is given in place; the model returns the package
  as changed. The loop writes to keys that exist already, so every entry is visited once.
  A caller that hands the same pointer to \<^verbatim>\<open>Add\<close> a second time hands over the package as the
  first call left it; in the model that is the value \<open>rewritePackage pkg\<close>, not \<open>pkg\<close>.
\<close>

definition rewritePackage :: "FlatPackage \<Rightarrow> FlatPackage" where
  "rewritePackage pkg =
     (let pkg1 = pkg\<lparr>ID := PkgPath pkg\<rparr>
      in pkg1\<lparr>Imports := map (\<lambda>(k, v). (k, canonicalizeId k v pkg1)) (Imports pkg1)\<rparr>)"

subsection \<open>The superset test\<close>

text \<open>
  The loop of \<^verbatim>\<open>isSuperset\<close> over the elements of \<open>a\<close>, with the index \<open>bi\<close> into \<open>b\<close>. The
  expression \<^verbatim>\<open>b[bi]\<close> panics when \<open>bi\<close> is not below the length of \<open>b\<close>.
\<close>

fun isSuperset_loop :: "string list \<Rightarrow> string list \<Rightarrow> nat \<Rightarrow> error + bool" where
  "isSuperset_loop [] b bi = Inr False"
| "isSuperset_loop (x # a) b bi =
     (if length b \<le> bi then Inl IndexOutOfRange
      else if x = b ! bi then
        (if bi + 1 = length b then Inr True else isSuperset_loop a b (bi + 1))
      else isSuperset_loop a b bi)"

definition isSuperset :: "string list \<Rightarrow> string list \<Rightarrow> error + bool" where
  "isSuperset a b =
     (if length a < length b then Inr False else isSuperset_loop a b 0)"

subsection \<open>Registration\<close>

definition Update :: "PackageRegistry \<Rightarrow> FlatPackage \<Rightarrow> error + PackageRegistry" where
  "Update pr pkg =
     (case lookup pr (PkgPath pkg) of
        None \<Rightarrow> Inr (store (PkgPath pkg) pkg pr)
      | Some existing \<Rightarrow>
          (case isSuperset (GoFiles pkg) (GoFiles existing) of
             Inl e \<Rightarrow> Inl e
           | Inr ok \<Rightarrow>
               if ok then Inr (store (PkgPath pkg) (existing\<lparr>GoFiles := GoFiles pkg\<rparr>) pr)
               else Inr pr))"

definition Add1 :: "PackageRegistry \<Rightarrow> FlatPackage \<Rightarrow> PackageRegistry" where
  "Add1 pr pkg0 =
     (let pkg = rewritePackage pkg0;
          pr1 = store (PkgPath pkg) pkg pr
      in if IsStdlib pkg then pr1\<lparr>stdlib := (stdlib pr1)(PkgPath pkg \<mapsto> ID pkg)\<rparr> else pr1)"

fun Add :: "PackageRegistry \<Rightarrow> FlatPackage list \<Rightarrow> PackageRegistry" where
  "Add pr [] = pr"
| "Add pr (pkg # pkgs) = Add (Add1 pr pkg) pkgs"

definition NewPackageRegistry :: "FlatPackage list \<Rightarrow> PackageRegistry" where
  "NewPackageRegistry pkgs = Add emptyRegistry pkgs"

subsection \<open>Resolving imports\<close>

text \<open>
  The closure \<^verbatim>\<open>resolve\<close> of \<^verbatim>\<open>ResolveImports\<close>: the identifier the standard-library index
  holds for an import path, the empty string when it holds none.
\<close>

definition resolve :: "PackageRegistry \<Rightarrow> string \<Rightarrow> string" where
  "resolve pr importPath = (case stdlib pr importPath of Some pkgID \<Rightarrow> pkgID | None \<Rightarrow> [])"

text \<open>
  The methods \<^verbatim>\<open>ResolveImports\<close> and \<^verbatim>\<open>MoveTestFiles\<close> of \<^verbatim>\<open>FlatPackage\<close> are declared outside
  the given sources, so the loop takes them as parameters. \<open>step r pkg\<close> is the package as
  \<^verbatim>\<open>pkg.ResolveImports(r)\<close> leaves it, with the error it returns, if any. \<open>split pkg\<close> is the
  package as \<^verbatim>\<open>pkg.MoveTestFiles()\<close> leaves it, with the test package it returns, if any;
  its Go type has no error result.

  The loop ranges over \<^verbatim>\<open>pr.packages\<close> while storing into it. \<open>order\<close> is the sequence of
  keys the \<^verbatim>\<open>range\<close> statement produces: Go fixes neither their order nor whether an entry
  stored during the loop is produced, and produces no key that is not in the map. The
  result is the error returned, if any, and the registry as the call leaves it.
\<close>

type_synonym resolve_step = "(string \<Rightarrow> string) \<Rightarrow> FlatPackage \<Rightarrow> FlatPackage \<times> error option"
type_synonym split_step = "FlatPackage \<Rightarrow> FlatPackage \<times> FlatPackage option"

fun ResolveImports_loop ::
  "resolve_step \<Rightarrow> split_step \<Rightarrow> PackageRegistry \<Rightarrow> string list \<Rightarrow> error option \<times> PackageRegistry"
where
  "ResolveImports_loop step split pr [] = (None, pr)"
| "ResolveImports_loop step split pr (k # ks) =
     (case lookup pr k of
        None \<Rightarrow> ResolveImports_loop step split pr ks
      | Some pkg \<Rightarrow>
          (case step (resolve pr) pkg of
             (pkg1, Some err) \<Rightarrow> (Some err, store k pkg1 pr)
           | (pkg1, None) \<Rightarrow>
               (case split pkg1 of
                  (pkg2, None) \<Rightarrow> ResolveImports_loop step split (store k pkg2 pr) ks
                | (pkg2, Some testFp) \<Rightarrow>
                    ResolveImports_loop step split
                      (store (ID testFp) testFp (store k pkg2 pr)) ks)))"

definition ResolveImports ::
  "resolve_step \<Rightarrow> split_step \<Rightarrow> string list \<Rightarrow> PackageRegistry \<Rightarrow> error option \<times> PackageRegistry"
where
  "ResolveImports step split order pr = ResolveImports_loop step split pr order"

subsection \<open>The walk\<close>

text \<open>
  The state of a walk: the map \<^verbatim>\<open>acc\<close> of visited packages; the keys that the statement
  \<^verbatim>\<open>acc[pkg.ID] = pkg\<close> has written, in the order of the writes (a record of the run, which
  the code does not keep); and the roots reported as \<^verbatim>\<open>package ID not found\<close> to the logger.
\<close>

record walk_state =
  acc :: "(string \<times> FlatPackage) list"
  inserted :: "string list"
  notFound :: "string list"

definition emptyWalk :: walk_state where
  "emptyWalk = \<lparr>acc = [], inserted = [], notFound = []\<rparr>"

definition visit :: "FlatPackage \<Rightarrow> walk_state \<Rightarrow> walk_state" where
  "visit pkg st = st\<lparr>acc := AList.update (ID pkg) pkg (acc st), inserted := inserted st @ [ID pkg]\<rparr>"

definition report :: "string \<Rightarrow> walk_state \<Rightarrow> walk_state" where
  "report root st = st\<lparr>notFound := notFound st @ [root]\<rparr>"

text \<open>
  \<^verbatim>\<open>walk\<close> calls itself from its loop over the imports, and nothing in the code bounds the
  depth of the calls. The first argument is the number of nested calls the stack has room
  for; \<open>None\<close> is a walk that needs more. \<open>walk_imports\<close> is the loop over the values of
  \<^verbatim>\<open>pkg.Imports\<close>.
\<close>

fun walk :: "nat \<Rightarrow> PackageRegistry \<Rightarrow> walk_state \<Rightarrow> string \<Rightarrow> walk_state option"
  and walk_imports :: "nat \<Rightarrow> PackageRegistry \<Rightarrow> walk_state \<Rightarrow> string list \<Rightarrow> walk_state option"
where
  "walk 0 pr st root = None"
| "walk (Suc n) pr st root =
     (case lookup pr root of
        None \<Rightarrow> Some (report root st)
      | Some pkg \<Rightarrow> walk_imports n pr (visit pkg st) (map snd (Imports pkg)))"
| "walk_imports n pr st [] = Some st"
| "walk_imports n pr st (pkgID # rest) =
     (if map_of (acc st) pkgID = None then
        (case walk n pr st pkgID of
           None \<Rightarrow> None
         | Some st1 \<Rightarrow> walk_imports n pr st1 rest)
      else walk_imports n pr st rest)"

subsection \<open>Queries\<close>

text \<open>
  The first loop of \<^verbatim>\<open>Query\<close>, and the second loop of \<^verbatim>\<open>Match\<close>: every root is appended to
  \<^verbatim>\<open>retRoots\<close> and walked into the one map. The last loop of both lists the values of the
  map.
\<close>

fun walk_roots ::
  "nat \<Rightarrow> PackageRegistry \<Rightarrow> string list \<times> walk_state \<Rightarrow> string list \<Rightarrow> (string list \<times> walk_state) option"
where
  "walk_roots n pr (retRoots, st) [] = Some (retRoots, st)"
| "walk_roots n pr (retRoots, st) (rootPkg # rest) =
     (case walk n pr st rootPkg of
        None \<Rightarrow> None
      | Some st1 \<Rightarrow> walk_roots n pr (retRoots @ [rootPkg], st1) rest)"

definition retPkgs :: "walk_state \<Rightarrow> FlatPackage list" where
  "retPkgs st = map snd (acc st)"

text \<open>\<^verbatim>\<open>Query\<close> does not read its first parameter, the driver request; the model leaves it out.\<close>

definition Query :: "nat \<Rightarrow> PackageRegistry \<Rightarrow> string list \<Rightarrow> (string list \<times> FlatPackage list) option" where
  "Query n pr queries =
     map_option (\<lambda>(retRoots, st). (retRoots, retPkgs st)) (walk_roots n pr ([], emptyWalk) queries)"

text \<open>
  The set \<^verbatim>\<open>roots\<close> of \<^verbatim>\<open>Match\<close> is a list without repetitions; storing a key that is there
  already changes nothing.
\<close>

definition add_root :: "string \<Rightarrow> string list \<Rightarrow> string list" where
  "add_root r roots = (if r \<in> set roots then roots else roots @ [r])"

definition anchor :: "string \<Rightarrow> string" where
  "anchor label = (if prefix ''@'' label then label else ''@'' @ label)"

definition stdlib_roots :: "PackageRegistry \<Rightarrow> string list \<Rightarrow> string list" where
  "stdlib_roots pr roots =
     fold (\<lambda>(k, pkg) rs. if Standard pkg then add_root (ID pkg) rs else rs) (packages pr) roots"

text \<open>
  The first loop of \<^verbatim>\<open>Match\<close>. The label \<^verbatim>\<open>RulesGoStdlibLabel\<close> is declared outside the given
  sources and is the parameter \<open>stdlibLabel\<close>.
\<close>

fun Match_roots :: "string \<Rightarrow> PackageRegistry \<Rightarrow> string list \<Rightarrow> string list \<Rightarrow> string list" where
  "Match_roots stdlibLabel pr roots [] = roots"
| "Match_roots stdlibLabel pr roots (l # labels) =
     (let label = anchor l in
      if label = stdlibLabel then Match_roots stdlibLabel pr (stdlib_roots pr roots) labels
      else
        (let roots1 = add_root label roots;
             roots2 = (if lookup pr (label @ ''_xtest'') \<noteq> None
                       then add_root (label @ ''_xtest'') roots1 else roots1)
         in Match_roots stdlibLabel pr roots2 labels))"

definition Match ::
  "nat \<Rightarrow> string \<Rightarrow> PackageRegistry \<Rightarrow> string list \<Rightarrow> (string list \<times> FlatPackage list) option"
where
  "Match n stdlibLabel pr labels =
     map_option (\<lambda>(retRoots, st). (retRoots, retPkgs st))
       (walk_roots n pr ([], emptyWalk) (Match_roots stdlibLabel pr [] labels))"

subsection \<open>The import graph and the registry's invariants\<close>

text \<open>
  What the properties below speak of. An edge of the import graph leads from the key of a
  registered package to an import target that is a key of the registry; \<open>reachable pr R\<close>
  are the keys the registered roots among \<open>R\<close> lead to. \<open>keyed_by_identity\<close> says that
  every package is stored under its own identity, and \<open>keys_unique\<close> that the list of
  entries stands for a Go map.
\<close>

definition keys :: "PackageRegistry \<Rightarrow> string set" where
  "keys pr = fst ` set (packages pr)"

definition import_edges :: "PackageRegistry \<Rightarrow> (string \<times> string) set" where
  "import_edges pr =
     {(k, t). \<exists>pkg. lookup pr k = Some pkg \<and> t \<in> snd ` set (Imports pkg) \<and> t \<in> keys pr}"

definition reachable :: "PackageRegistry \<Rightarrow> string set \<Rightarrow> string set" where
  "reachable pr R = (import_edges pr)\<^sup>* `` (R \<inter> keys pr)"

definition keyed_by_identity :: "PackageRegistry \<Rightarrow> bool" where
  "keyed_by_identity pr \<longleftrightarrow> (\<forall>k pkg. lookup pr k = Some pkg \<longrightarrow> ID pkg = k)"

definition keys_unique :: "PackageRegistry \<Rightarrow> bool" where
  "keys_unique pr \<longleftrightarrow> distinct (map fst (packages pr))"

definition visited :: "walk_state \<Rightarrow> string set" where
  "visited st = fst ` set (acc st)"

definition walk_inv :: "PackageRegistry \<Rightarrow> walk_state \<Rightarrow> bool" where
  "walk_inv pr st \<longleftrightarrow>
     distinct (map fst (acc st))
     \<and> set (inserted st) = visited st
     \<and> (\<forall>k pkg. map_of (acc st) k = Some pkg \<longrightarrow> lookup pr k = Some pkg)"

definition unvisited :: "PackageRegistry \<Rightarrow> walk_state \<Rightarrow> nat" where
  "unvisited pr st = card (keys pr - visited st)"

text \<open>
  What a run adds to the record of insertions between two states, started at the
  registered keys \<open>S\<close>: keys written once each, none of them visited before, each reached
  from \<open>S\<close>, each with all its registered imports visited at the end, and all of \<open>S\<close> visited
  at the end.
\<close>

definition grows :: "PackageRegistry \<Rightarrow> string set \<Rightarrow> walk_state \<Rightarrow> walk_state \<Rightarrow> bool" where
  "grows pr S st st' \<longleftrightarrow>
     (\<exists>new. inserted st' = inserted st @ new
        \<and> distinct new
        \<and> set new \<inter> set (inserted st) = {}
        \<and> set new \<subseteq> (import_edges pr)\<^sup>* `` S
        \<and> (\<forall>k \<in> set new. import_edges pr `` {k} \<subseteq> set (inserted st) \<union> set new)
        \<and> S \<subseteq> set (inserted st) \<union> set new)"

text \<open>
  The roots that a label gives \<^verbatim>\<open>Match\<close>, in the words of the spec: for the standard-library
  label the identities of the flagged packages; for any other label the label with its
  anchor, and its test companion when the registry holds one.
\<close>

definition label_roots :: "string \<Rightarrow> PackageRegistry \<Rightarrow> string \<Rightarrow> string set" where
  "label_roots stdlibLabel pr l =
     (if anchor l = stdlibLabel then {ID pkg |k pkg. lookup pr k = Some pkg \<and> Standard pkg}
      else {anchor l} \<union>
        (if lookup pr (anchor l @ ''_xtest'') \<noteq> None then {anchor l @ ''_xtest''} else {}))"

text \<open>Two states of a walk with the same map and the same record of insertions.\<close>

definition same_visits :: "walk_state \<Rightarrow> walk_state \<Rightarrow> bool" where
  "same_visits s t \<longleftrightarrow> acc s = acc t \<and> inserted s = inserted t"

subsection \<open>Example packages\<close>

definition pkg_app :: FlatPackage where
  "pkg_app = \<lparr>ID = ''@//app:lib'', PkgPath = ''example.com/app'', GoFiles = [''a.go'', ''b.go''],
     Imports = [(''fmt'', ''@@io_bazel_rules_go//stdlib:fmt''), (''example.com/foo'', ''@//foo:lib'')],
     Standard = False\<rparr>"

definition pkg_fmt :: FlatPackage where
  "pkg_fmt = \<lparr>ID = ''@@io_bazel_rules_go//stdlib:fmt'', PkgPath = ''fmt'', GoFiles = [''print.go''],
     Imports = [(''os'', ''os'')], Standard = True\<rparr>"

text \<open>Two packages that import each other.\<close>

definition pkg_A :: FlatPackage where
  "pkg_A = \<lparr>ID = ''A'', PkgPath = ''A'', GoFiles = [''a.go''], Imports = [(''B'', ''B'')],
     Standard = False\<rparr>"

definition pkg_B :: FlatPackage where
  "pkg_B = \<lparr>ID = ''B'', PkgPath = ''B'', GoFiles = [''b.go''], Imports = [(''A'', ''A'')],
     Standard = False\<rparr>"

definition reg_AB :: PackageRegistry where
  "reg_AB = \<lparr>packages = [(''A'', pkg_A), (''B'', pkg_B)], stdlib = Map.empty\<rparr>"

text \<open>A package without files, and the same package with the file generated for it.\<close>

definition pkg_nofiles :: FlatPackage where
  "pkg_nofiles = \<lparr>ID = ''example.com/gen'', PkgPath = ''example.com/gen'', GoFiles = [],
     Imports = [], Standard = False\<rparr>"

definition pkg_gen :: FlatPackage where
  "pkg_gen = pkg_nofiles\<lparr>GoFiles := [''gen.pb.go'']\<rparr>"

definition reg_gen :: PackageRegistry where
  "reg_gen = \<lparr>packages = [(''example.com/gen'', pkg_nofiles)], stdlib = Map.empty\<rparr>"

text \<open>
  Two packages that import each other, as a producer hands them over: their identities
  are labels, their import targets paths.
\<close>

definition raw_A :: FlatPackage where
  "raw_A = \<lparr>ID = ''@//a:lib'', PkgPath = ''A'', GoFiles = [''a.go''], Imports = [(''B'', ''B'')],
     Standard = False\<rparr>"

definition raw_B :: FlatPackage where
  "raw_B = \<lparr>ID = ''@//b:lib'', PkgPath = ''B'', GoFiles = [''b.go''], Imports = [(''A'', ''A'')],
     Standard = False\<rparr>"

definition reg_raw :: PackageRegistry where
  "reg_raw = \<lparr>packages = [(''A'', raw_A), (''B'', raw_B)], stdlib = Map.empty\<rparr>"

text \<open>Two packages of different paths that come with one identity.\<close>

definition raw_P :: FlatPackage where
  "raw_P = \<lparr>ID = ''@//x:lib'', PkgPath = ''P'', GoFiles = [''p.go''], Imports = [],
     Standard = False\<rparr>"

definition raw_Q :: FlatPackage where
  "raw_Q = \<lparr>ID = ''@//x:lib'', PkgPath = ''Q'', GoFiles = [''q.go''], Imports = [],
     Standard = False\<rparr>"

definition reg_shared :: PackageRegistry where
  "reg_shared = \<lparr>packages = [(''P'', raw_P), (''Q'', raw_Q)], stdlib = Map.empty\<rparr>"

text \<open>A package that is not flagged standard-library, at the path of \<open>pkg_fmt\<close>.\<close>

definition pkg_fmt_fork :: FlatPackage where
  "pkg_fmt_fork = \<lparr>ID = ''@//third_party/fmt:lib'', PkgPath = ''fmt'', GoFiles = [''fork.go''],
     Imports = [], Standard = False\<rparr>"

text \<open>
  Modelled from the spec: the method \<^verbatim>\<open>ResolveImports\<close> of \<^verbatim>\<open>FlatPackage\<close> is declared outside
  the given sources; in the spec it sets the target of every import edge that is
  unresolved (an empty target) to what the resolver gives for the edge's path, and leaves
  the other edges as they are.
\<close>

definition fill_unresolved :: "(string \<Rightarrow> string) \<Rightarrow> FlatPackage \<Rightarrow> FlatPackage" where
  "fill_unresolved r pkg =
     pkg\<lparr>Imports := map (\<lambda>(path, target). (path, if target = [] then r path else target))
                       (Imports pkg)\<rparr>"

text \<open>
  Stand-ins for the two methods of \<^verbatim>\<open>FlatPackage\<close> that \<^verbatim>\<open>ResolveImports\<close> calls, for the examples:
  \<open>step_ex\<close> fills the import targets that are empty from the resolver and fails on a
  package without files; \<open>split_ex\<close> moves the files named \<^verbatim>\<open>*_test.go\<close> to a test package.
\<close>

definition step_ex :: resolve_step where
  "step_ex r pkg =
     (fill_unresolved r pkg,
      if GoFiles pkg = [] then Some (ResolveFailure (PkgPath pkg)) else None)"

definition split_ex :: split_step where
  "split_ex pkg =
     (if filter (suffix ''_test.go'') (GoFiles pkg) = [] then (pkg, None)
      else (pkg\<lparr>GoFiles := filter (\<lambda>f. \<not> suffix ''_test.go'' f) (GoFiles pkg)\<rparr>,
            Some \<lparr>ID = ID pkg @ ''_xtest'', PkgPath = PkgPath pkg @ ''_test'',
                  GoFiles = filter (suffix ''_test.go'') (GoFiles pkg),
                  Imports = Imports pkg, Standard = False\<rparr>))"

definition pkg_tested :: FlatPackage where
  "pkg_tested = \<lparr>ID = ''example.com/app'', PkgPath = ''example.com/app'',
     GoFiles = [''a.go'', ''a_test.go''], Imports = [(''fmt'', [])], Standard = False\<rparr>"

subsection \<open>Sequences of operations\<close>

text \<open>
  The operations that change a registry, and a sequence of them run from a registry. The
  run stops at a panic; after an error of \<^verbatim>\<open>ResolveImports\<close> it goes on with the registry
  as the call left it. \<open>flags_agree flag ops\<close> says that every package the operations
  register under a path carries the flag that \<open>flag\<close> gives the path, and
  \<open>keeps_flags flag step split\<close> that the two methods leave the flag of a package as it
  is and flag a test package as \<open>flag\<close> says for its identity.
\<close>

datatype registration =
  DoAdd "FlatPackage list" | DoUpdate FlatPackage | DoResolveImports "string list"

fun register ::
  "resolve_step \<Rightarrow> split_step \<Rightarrow> PackageRegistry \<Rightarrow> registration list \<Rightarrow> error + PackageRegistry"
where
  "register step split pr [] = Inr pr"
| "register step split pr (DoAdd pkgs # ops) = register step split (Add pr pkgs) ops"
| "register step split pr (DoUpdate pkg # ops) =
     (case Update pr pkg of Inl e \<Rightarrow> Inl e | Inr pr1 \<Rightarrow> register step split pr1 ops)"
| "register step split pr (DoResolveImports order # ops) =
     register step split (snd (ResolveImports step split order pr)) ops"

fun registered :: "registration \<Rightarrow> FlatPackage list" where
  "registered (DoAdd pkgs) = pkgs"
| "registered (DoUpdate pkg) = [pkg]"
| "registered (DoResolveImports order) = []"

definition flags_agree :: "(string \<Rightarrow> bool) \<Rightarrow> registration list \<Rightarrow> bool" where
  "flags_agree flag ops \<longleftrightarrow>
     list_all (\<lambda>op. list_all (\<lambda>pkg. Standard pkg = flag (PkgPath pkg)) (registered op)) ops"

definition keeps_flags :: "(string \<Rightarrow> bool) \<Rightarrow> resolve_step \<Rightarrow> split_step \<Rightarrow> bool" where
  "keeps_flags flag step split \<longleftrightarrow>
     (\<forall>r pkg. Standard (fst (step r pkg)) = Standard pkg)
     \<and> (\<forall>pkg. Standard (fst (split pkg)) = Standard pkg)
     \<and> (\<forall>pkg testFp. snd (split pkg) = Some testFp \<longrightarrow> Standard testFp = flag (ID testFp))"

definition index_registered :: "PackageRegistry \<Rightarrow> bool" where
  "index_registered pr \<longleftrightarrow> (\<forall>k v. stdlib pr k = Some v \<longrightarrow> v = k \<and> lookup pr k \<noteq> None)"

definition index_flagged :: "PackageRegistry \<Rightarrow> bool" where
  "index_flagged pr \<longleftrightarrow>
     (\<forall>k v. stdlib pr k = Some v \<longrightarrow> (\<exists>pkg. lookup pr k = Some pkg \<and> Standard pkg))"

subsection \<open>Example registries\<close>

text \<open>A registry keyed by labels, with a test companion and two standard-library packages.\<close>

definition lib :: FlatPackage where
  "lib = \<lparr>ID = ''@//pkg:lib'', PkgPath = ''example.com/pkg'', GoFiles = [''lib.go''],
     Imports = [(''fmt'', ''fmt'')], Standard = False\<rparr>"

definition lib_xtest :: FlatPackage where
  "lib_xtest = \<lparr>ID = ''@//pkg:lib_xtest'', PkgPath = ''example.com/pkg_test'',
     GoFiles = [''lib_test.go''], Imports = [(''example.com/pkg'', ''@//pkg:lib'')], Standard = False\<rparr>"

definition std_fmt :: FlatPackage where
  "std_fmt = \<lparr>ID = ''fmt'', PkgPath = ''fmt'', GoFiles = [''print.go''], Imports = [],
     Standard = True\<rparr>"

definition std_os :: FlatPackage where
  "std_os = \<lparr>ID = ''os'', PkgPath = ''os'', GoFiles = [''file.go''], Imports = [],
     Standard = True\<rparr>"

definition reg_labels :: PackageRegistry where
  "reg_labels = \<lparr>packages = [(''@//pkg:lib'', lib), (''@//pkg:lib_xtest'', lib_xtest),
       (''fmt'', std_fmt), (''os'', std_os)],
     stdlib = [''fmt'' \<mapsto> ''fmt'', ''os'' \<mapsto> ''os'']\<rparr>"

definition labels_ex :: "string list" where
  "labels_ex = [''//pkg:lib'', ''@//pkg:lib'', ''@io_bazel_rules_go//:stdlib'', ''//other:lib'']"

text \<open>A registry before \<^verbatim>\<open>ResolveImports\<close>, and after the loop has run over its first key.\<close>

definition reg_res :: PackageRegistry where
  "reg_res = \<lparr>packages = [(''example.com/app'', pkg_tested), (''example.com/gen'', pkg_nofiles),
       (''fmt'', std_fmt)],
     stdlib = [''fmt'' \<mapsto> ''fmt'']\<rparr>"

definition pkg_tested_split :: FlatPackage where
  "pkg_tested_split = pkg_tested\<lparr>GoFiles := [''a.go''], Imports := [(''fmt'', ''fmt'')]\<rparr>"

definition pkg_tested_xtest :: FlatPackage where
  "pkg_tested_xtest = \<lparr>ID = ''example.com/app_xtest'', PkgPath = ''example.com/app_test'',
     GoFiles = [''a_test.go''], Imports = [(''fmt'', ''fmt'')], Standard = False\<rparr>"

definition reg_res1 :: PackageRegistry where
  "reg_res1 = \<lparr>packages = [(''example.com/app'', pkg_tested_split), (''example.com/gen'', pkg_nofiles),
       (''fmt'', std_fmt), (''example.com/app_xtest'', pkg_tested_xtest)],
     stdlib = [''fmt'' \<mapsto> ''fmt'']\<rparr>"

text \<open>
  A package without test files and with two unresolved imports, one of them of a path
  that the index holds; the registry before and after \<^verbatim>\<open>ResolveImports\<close>.
\<close>

definition pkg_plain :: FlatPackage where
  "pkg_plain = \<lparr>ID = ''example.com/plain'', PkgPath = ''example.com/plain'', GoFiles = [''p.go''],
     Imports = [(''fmt'', []), (''unknown/x'', [])], Standard = False\<rparr>"

definition pkg_plain_resolved :: FlatPackage where
  "pkg_plain_resolved = pkg_plain\<lparr>Imports := [(''fmt'', ''fmt''), (''unknown/x'', [])]\<rparr>"

definition reg_plain :: PackageRegistry where
  "reg_plain = \<lparr>packages = [(''example.com/plain'', pkg_plain), (''fmt'', std_fmt)],
     stdlib = [''fmt'' \<mapsto> ''fmt'']\<rparr>"

definition reg_plain1 :: PackageRegistry where
  "reg_plain1 = \<lparr>packages = [(''example.com/plain'', pkg_plain_resolved), (''fmt'', std_fmt)],
     stdlib = [''fmt'' \<mapsto> ''fmt'']\<rparr>"

text \<open>A run of operations, and the registry it ends with.\<close>

definition ops_ex :: "registration list" where
  "ops_ex = [DoAdd [pkg_fmt, pkg_tested], DoUpdate pkg_gen,
     DoResolveImports [''example.com/app'', ''fmt'']]"

definition reg_ops :: PackageRegistry where
  "reg_ops = \<lparr>packages = [(''fmt'', pkg_fmt\<lparr>ID := ''fmt''\<rparr>), (''example.com/app'', pkg_tested_split),
       (''example.com/gen'', pkg_gen), (''example.com/app_xtest'', pkg_tested_xtest)],
     stdlib = [''fmt'' \<mapsto> ''fmt'']\<rparr>"

text \<open>Every package carries the flag of its key, and only flagged paths are indexed.\<close>

definition flagged_as :: "(string \<Rightarrow> bool) \<Rightarrow> PackageRegistry \<Rightarrow> bool" where
  "flagged_as flag pr \<longleftrightarrow>
     (\<forall>k pkg. lookup pr k = Some pkg \<longrightarrow> Standard pkg = flag k)
     \<and> (\<forall>k v. stdlib pr k = Some v \<longrightarrow> flag k)"

section \<open>Properties\<close>

subsection \<open>The superset test\<close>

lemma isSuperset_loop_subseq:
  "bi < length b \<Longrightarrow> isSuperset_loop a b bi = Inr (subseq (drop bi b) a)"
proof (induction a arbitrary: bi)
  case Nil
  then show ?case by simp
next
  case (Cons x a)
  from Cons.prems have d: "drop bi b = b ! bi # drop (Suc bi) b"
    by (simp add: Cons_nth_drop_Suc)
  show ?case
  proof (cases "x = b ! bi")
    case False
    with Cons d show ?thesis by simp
  next
    case True
    show ?thesis
    proof (cases "Suc bi = length b")
      case True
      with \<open>x = b ! bi\<close> Cons.prems d show ?thesis by simp
    next
      case False
      with Cons.prems have "Suc bi < length b" by simp
      from Cons.IH [OF this] \<open>x = b ! bi\<close> Cons.prems False d show ?thesis by simp
    qed
  qed
qed

lemma isSuperset_nonempty:
  "b \<noteq> [] \<Longrightarrow> isSuperset a b = Inr (subseq b a)"
proof (cases "length a < length b")
  case True
  then have "\<not> subseq b a"
    using list_emb_length [of "(=)" b a] by auto
  with True show ?thesis by (simp add: isSuperset_def)
next
  case False
  assume "b \<noteq> []"
  then have "0 < length b" by simp
  from isSuperset_loop_subseq [OF this] False show ?thesis
    by (simp add: isSuperset_def)
qed

lemma isSuperset_empty_b:
  "isSuperset a [] = (if a = [] then Inr False else Inl IndexOutOfRange)"
  by (cases a) (simp_all add: isSuperset_def)

text \<open>
  Claim C1. \<^verbatim>\<open>isSuperset(a, b)\<close> is to return true exactly when \<open>b\<close> is a subsequence of
  \<open>a\<close>, and so true for every empty \<open>b\<close>. The code does so for every non-empty \<open>b\<close>
  (\<open>isSuperset_nonempty\<close>); for an empty \<open>b\<close> it returns false when \<open>a\<close> is empty too, and
  panics on \<^verbatim>\<open>b[0]\<close> when \<open>a\<close> is not, although the empty list is a subsequence of both.
\<close>

theorem isSuperset_empty_b_diverges:
  "isSuperset [] [] = Inr False
   \<and> subseq [] ([] :: string list)
   \<and> isSuperset [''a.go''] [] = Inl IndexOutOfRange
   \<and> subseq [] [''a.go'']"
  by (simp add: isSuperset_def)

subsection \<open>Canonical identifiers\<close>

text \<open>
  Claim C4. \<^verbatim>\<open>canonicalizeId\<close> returns the identifier without the standard-library prefix
  when it starts with that prefix; otherwise the identifier itself when the importing
  package is flagged standard-library; otherwise the declared path.
\<close>

theorem canonicalizeId_cases:
  "(prefix stdlibPrefix ident \<longrightarrow>
      stdlibPrefix @ canonicalizeId path ident pkg = ident
      \<and> canonicalizeId path ident pkg = drop (length stdlibPrefix) ident)
   \<and> (\<not> prefix stdlibPrefix ident \<longrightarrow> Standard pkg \<longrightarrow> canonicalizeId path ident pkg = ident)
   \<and> (\<not> prefix stdlibPrefix ident \<longrightarrow> \<not> Standard pkg \<longrightarrow> canonicalizeId path ident pkg = path)"
  by (auto simp: canonicalizeId_def IsStdlib_def prefix_def)

theorem canonicalizeId_cases_witness:
  "canonicalizeId ''fmt'' ''@@io_bazel_rules_go//stdlib:fmt'' pkg_app = ''fmt''
   \<and> canonicalizeId ''os'' ''os'' pkg_fmt = ''os''
   \<and> canonicalizeId ''example.com/foo'' ''@//foo:lib'' pkg_app = ''example.com/foo''"
  using canonicalizeId_cases [of "''@@io_bazel_rules_go//stdlib:fmt''" "''fmt''" pkg_app]
    canonicalizeId_cases [of "''os''" "''os''" pkg_fmt]
    canonicalizeId_cases [of "''@//foo:lib''" "''example.com/foo''" pkg_app]
  by (simp add: stdlibPrefix_def pkg_app_def pkg_fmt_def)

subsection \<open>The walk\<close>

lemma keys_lookup: "k \<in> keys pr \<longleftrightarrow> lookup pr k \<noteq> None"
  by (simp add: keys_def lookup_def map_of_eq_None_iff)

lemma finite_keys: "finite (keys pr)"
  by (simp add: keys_def)

lemma visited_mem: "k \<in> visited st \<longleftrightarrow> map_of (acc st) k \<noteq> None"
  by (simp add: visited_def map_of_eq_None_iff)

lemma visited_visit: "visited (visit pkg st) = insert (ID pkg) (visited st)"
  by (simp add: visited_def visit_def dom_update)

lemma inserted_visit: "inserted (visit pkg st) = inserted st @ [ID pkg]"
  by (simp add: visit_def)

lemma walk_inv_visit:
  assumes "walk_inv pr st" "lookup pr k = Some pkg" "ID pkg = k"
  shows "walk_inv pr (visit pkg st)"
proof -
  have "distinct (map fst (acc (visit pkg st)))"
    using assms(1) by (simp add: walk_inv_def visit_def distinct_update)
  moreover have "set (inserted (visit pkg st)) = visited (visit pkg st)"
    using assms(1) by (simp add: walk_inv_def visited_visit inserted_visit)
  moreover have "map_of (acc (visit pkg st)) j = Some p \<Longrightarrow> lookup pr j = Some p" for j p
    using assms by (auto simp: walk_inv_def visit_def update_conv' split: if_splits)
  ultimately show ?thesis by (simp add: walk_inv_def)
qed

lemma walk_inv_report: "walk_inv pr st \<Longrightarrow> walk_inv pr (report root st)"
  by (simp add: walk_inv_def report_def visited_def)

lemma unvisited_visit:
  assumes "ID pkg \<in> keys pr" "ID pkg \<notin> visited st"
  shows "unvisited pr (visit pkg st) < unvisited pr st"
proof -
  have "keys pr - insert (ID pkg) (visited st) \<subset> keys pr - visited st"
    using assms by auto
  then show ?thesis
    by (simp add: unvisited_def visited_visit psubset_card_mono finite_keys)
qed

lemma unvisited_mono:
  "visited st \<subseteq> visited st' \<Longrightarrow> unvisited pr st' \<le> unvisited pr st"
  by (auto simp: unvisited_def intro!: card_mono finite_keys)

lemma grows_nothing:
  "inserted st' = inserted st \<Longrightarrow> S \<subseteq> set (inserted st) \<Longrightarrow> grows pr S st st'"
  by (simp add: grows_def)

lemma grows_seen:
  assumes "grows pr S st st'" "T \<subseteq> set (inserted st)"
  shows "grows pr (S \<union> T) st st'"
proof -
  from assms(1) obtain new where n: "inserted st' = inserted st @ new" "distinct new"
    "set new \<inter> set (inserted st) = {}" "set new \<subseteq> (import_edges pr)\<^sup>* `` S"
    "\<forall>k \<in> set new. import_edges pr `` {k} \<subseteq> set (inserted st) \<union> set new"
    "S \<subseteq> set (inserted st) \<union> set new"
    unfolding grows_def by blast
  from n(4) have "set new \<subseteq> (import_edges pr)\<^sup>* `` (S \<union> T)" by blast
  moreover from n(6) assms(2) have "S \<union> T \<subseteq> set (inserted st) \<union> set new" by blast
  ultimately show ?thesis unfolding grows_def using n(1,2,3,5) by blast
qed

lemma grows_trans:
  assumes "grows pr S st st1" "grows pr T st1 st2"
  shows "grows pr (S \<union> T) st st2"
proof -
  from assms(1) obtain new1 where a: "inserted st1 = inserted st @ new1" "distinct new1"
    "set new1 \<inter> set (inserted st) = {}" "set new1 \<subseteq> (import_edges pr)\<^sup>* `` S"
    "\<forall>k \<in> set new1. import_edges pr `` {k} \<subseteq> set (inserted st) \<union> set new1"
    "S \<subseteq> set (inserted st) \<union> set new1"
    unfolding grows_def by blast
  from assms(2) obtain new2 where b: "inserted st2 = inserted st1 @ new2" "distinct new2"
    "set new2 \<inter> set (inserted st1) = {}" "set new2 \<subseteq> (import_edges pr)\<^sup>* `` T"
    "\<forall>k \<in> set new2. import_edges pr `` {k} \<subseteq> set (inserted st1) \<union> set new2"
    "T \<subseteq> set (inserted st1) \<union> set new2"
    unfolding grows_def by blast
  have 1: "inserted st2 = inserted st @ (new1 @ new2)" using a(1) b(1) by simp
  have 2: "distinct (new1 @ new2)" using a(1,2) b(2,3) by auto
  have 3: "set (new1 @ new2) \<inter> set (inserted st) = {}" using a(1,3) b(3) by auto
  have 4: "set (new1 @ new2) \<subseteq> (import_edges pr)\<^sup>* `` (S \<union> T)" using a(4) b(4) by auto
  have 5: "\<forall>k \<in> set (new1 @ new2). import_edges pr `` {k} \<subseteq> set (inserted st) \<union> set (new1 @ new2)"
    using a(1,5) b(5) by auto
  have 6: "S \<union> T \<subseteq> set (inserted st) \<union> set (new1 @ new2)" using a(1,6) b(6) by auto
  show ?thesis unfolding grows_def using 1 2 3 4 5 6 by blast
qed

lemma edges_of:
  "lookup pr k = Some pkg \<Longrightarrow> import_edges pr `` {k} = snd ` set (Imports pkg) \<inter> keys pr"
  by (auto simp: import_edges_def)

lemma grows_root:
  assumes "lookup pr root = Some pkg" "ID pkg = root" "root \<notin> set (inserted st)"
    and g: "grows pr (snd ` set (Imports pkg) \<inter> keys pr) (visit pkg st) st'"
  shows "grows pr {root} st st'"
proof -
  let ?E = "import_edges pr"
  from g obtain new where n: "inserted st' = inserted (visit pkg st) @ new" "distinct new"
    "set new \<inter> set (inserted (visit pkg st)) = {}" "set new \<subseteq> ?E\<^sup>* `` (?E `` {root})"
    "\<forall>k \<in> set new. ?E `` {k} \<subseteq> set (inserted (visit pkg st)) \<union> set new"
    "?E `` {root} \<subseteq> set (inserted (visit pkg st)) \<union> set new"
    unfolding grows_def edges_of [OF assms(1)] by blast
  have 1: "inserted st' = inserted st @ (root # new)" using n(1) assms(2) by (simp add: inserted_visit)
  have 2: "distinct (root # new)" using n(2,3) assms(2) by (auto simp: inserted_visit)
  have 3: "set (root # new) \<inter> set (inserted st) = {}" using n(3) assms(2,3) by (auto simp: inserted_visit)
  have "?E\<^sup>* `` (?E `` {root}) \<subseteq> ?E\<^sup>* `` {root}" 
    by (auto intro: converse_rtrancl_into_rtrancl)
  with n(4) have 4: "set (root # new) \<subseteq> ?E\<^sup>* `` {root}" by auto
  have 5: "\<forall>k \<in> set (root # new). ?E `` {k} \<subseteq> set (inserted st) \<union> set (root # new)"
    using n(5,6) assms(2) by (auto simp: inserted_visit)
  have 6: "{root} \<subseteq> set (inserted st) \<union> set (root # new)" by simp
  show ?thesis unfolding grows_def using 1 2 3 4 5 6 by blast
qed

lemma grows_visited:
  "grows pr S st st' \<Longrightarrow> walk_inv pr st \<Longrightarrow> walk_inv pr st' \<Longrightarrow> visited st \<subseteq> visited st'"
  by (auto simp: grows_def walk_inv_def)

text \<open>
  The walk from a root that is not visited yet, and the loop over import targets, with
  room for the calls they nest: both return, keep the invariant of the state, and add to
  the visited keys as \<open>grows\<close> says.
\<close>

lemma walk_grows:
  "keyed_by_identity pr \<Longrightarrow> walk_inv pr st \<Longrightarrow> root \<notin> visited st \<Longrightarrow> unvisited pr st < n \<Longrightarrow>
     \<exists>st'. walk n pr st root = Some st' \<and> walk_inv pr st' \<and> grows pr ({root} \<inter> keys pr) st st'"
  "keyed_by_identity pr \<Longrightarrow> walk_inv pr st \<Longrightarrow> unvisited pr st < n \<Longrightarrow>
     \<exists>st'. walk_imports n pr st ts = Some st' \<and> walk_inv pr st' \<and> grows pr (set ts \<inter> keys pr) st st'"
proof (induction n pr st root and n pr st ts rule: walk_walk_imports.induct)
  case (1 pr st root)
  then show ?case by simp
next
  case (2 n pr st root)
  show ?case
  proof (cases "lookup pr root")
    case None
    then have "root \<notin> keys pr" by (simp add: keys_lookup)
    then have "grows pr ({root} \<inter> keys pr) st (report root st)"
      by (simp add: grows_nothing report_def)
    with None "2.prems"(2) show ?thesis by (simp add: walk_inv_report)
  next
    case (Some pkg)
    with "2.prems"(1) have idk: "ID pkg = root" by (simp add: keyed_by_identity_def)
    from Some have rk: "root \<in> keys pr" by (simp add: keys_lookup)
    have inv1: "walk_inv pr (visit pkg st)"
      using walk_inv_visit [OF "2.prems"(2) Some idk] .
    have "unvisited pr (visit pkg st) < unvisited pr st"
      using unvisited_visit [of pkg pr st] idk rk "2.prems"(3) by simp
    with "2.prems"(4) have fuel: "unvisited pr (visit pkg st) < n" by simp
    from "2.IH" [OF Some "2.prems"(1) inv1 fuel]
    obtain st' where st': "walk_imports n pr (visit pkg st) (map snd (Imports pkg)) = Some st'"
      "walk_inv pr st'" "grows pr (set (map snd (Imports pkg)) \<inter> keys pr) (visit pkg st) st'"
      by blast
    from "2.prems"(2,3) have "root \<notin> set (inserted st)" by (simp add: walk_inv_def)
    from grows_root [OF Some idk this] st'(3) have "grows pr {root} st st'" by simp
    with rk have "grows pr ({root} \<inter> keys pr) st st'" by simp
    with Some st'(1,2) show ?thesis by simp
  qed
next
  case (3 n pr st)
  then show ?case by (simp add: grows_nothing)
next
  case (4 n pr st pkgID rest)
  show ?case
  proof (cases "map_of (acc st) pkgID = None")
    case True
    then have nv: "pkgID \<notin> visited st" by (simp add: visited_mem)
    from "4.IH"(1) [OF True "4.prems"(1,2) nv "4.prems"(3)]
    obtain st1 where st1: "walk n pr st pkgID = Some st1" "walk_inv pr st1"
      "grows pr ({pkgID} \<inter> keys pr) st st1" by blast
    have "unvisited pr st1 \<le> unvisited pr st"
      using unvisited_mono grows_visited [OF st1(3) "4.prems"(2) st1(2)] by blast
    with "4.prems"(3) have fuel: "unvisited pr st1 < n" by simp
    from "4.IH"(2) [OF True st1(1) "4.prems"(1) st1(2) fuel]
    obtain st' where st': "walk_imports n pr st1 rest = Some st'" "walk_inv pr st'"
      "grows pr (set rest \<inter> keys pr) st1 st'" by blast
    have "({pkgID} \<inter> keys pr) \<union> (set rest \<inter> keys pr) = set (pkgID # rest) \<inter> keys pr" by auto
    with grows_trans [OF st1(3) st'(3)] have "grows pr (set (pkgID # rest) \<inter> keys pr) st st'" by simp
    with True st1(1) st'(1,2) show ?thesis by simp
  next
    case False
    then have v: "pkgID \<in> visited st" by (simp add: visited_mem)
    from "4.IH"(3) [OF False "4.prems"]
    obtain st' where st': "walk_imports n pr st rest = Some st'" "walk_inv pr st'"
      "grows pr (set rest \<inter> keys pr) st st'" by blast
    from v "4.prems"(2) have "{pkgID} \<inter> keys pr \<subseteq> set (inserted st)" by (auto simp: walk_inv_def)
    have "(set rest \<inter> keys pr) \<union> ({pkgID} \<inter> keys pr) = set (pkgID # rest) \<inter> keys pr" by auto
    with grows_seen [OF st'(3) \<open>{pkgID} \<inter> keys pr \<subseteq> set (inserted st)\<close>]
    have "grows pr (set (pkgID # rest) \<inter> keys pr) st st'" by simp
    with False st'(1,2) show ?thesis by auto
  qed
qed

lemma closed_reach:
  assumes "S \<subseteq> V" "\<forall>k \<in> V. E `` {k} \<subseteq> V"
  shows "E\<^sup>* `` S \<subseteq> V"
proof
  fix x assume "x \<in> E\<^sup>* `` S"
  then obtain s where "s \<in> S" "(s, x) \<in> E\<^sup>*" by blast
  from this(2) \<open>s \<in> S\<close> show "x \<in> V"
    using assms by (induction rule: rtrancl_induct) auto
qed

lemma card_keys_le: "card (keys pr) \<le> length (packages pr)"
  unfolding keys_def by (metis card_image_le card_length le_trans List.finite_set)

lemma walk_inv_empty: "walk_inv pr emptyWalk"
  by (simp add: walk_inv_def emptyWalk_def visited_def)

lemma unvisited_le: "unvisited pr st \<le> length (packages pr)"
proof -
  have "card (keys pr - visited st) \<le> card (keys pr)"
    by (intro card_mono finite_keys) auto
  with card_keys_le [of pr] show ?thesis by (simp add: unvisited_def)
qed

text \<open>
  In a registry that stores every package under its own identity (as \<^verbatim>\<open>Add\<close> leaves it),
  with or without cycles among the imports, a walk from a root into an empty map returns
  when the stack has room for more nested calls than the registry has entries; the keys
  it has written to the map are the keys the root reaches, each written once.
\<close>

lemma walk_terminates_visits_once:
  assumes "keyed_by_identity pr" "length (packages pr) < n"
  shows "\<exists>st. walk n pr emptyWalk root = Some st
           \<and> distinct (inserted st)
           \<and> set (inserted st) = reachable pr {root}
           \<and> visited st = reachable pr {root}"
proof -
  have "root \<notin> visited emptyWalk" by (simp add: visited_def emptyWalk_def)
  moreover have "unvisited pr emptyWalk < n" using unvisited_le [of pr emptyWalk] assms(2) by simp
  ultimately obtain st where st: "walk n pr emptyWalk root = Some st" "walk_inv pr st"
    "grows pr ({root} \<inter> keys pr) emptyWalk st"
    using walk_grows(1) [OF assms(1) walk_inv_empty] by blast
  let ?E = "import_edges pr"
  from st(3) have d: "distinct (inserted st)" and sub: "set (inserted st) \<subseteq> ?E\<^sup>* `` ({root} \<inter> keys pr)"
    and cl: "\<forall>k \<in> set (inserted st). ?E `` {k} \<subseteq> set (inserted st)"
    and r: "{root} \<inter> keys pr \<subseteq> set (inserted st)"
    by (auto simp: grows_def emptyWalk_def)
  from closed_reach [OF r cl] sub have "set (inserted st) = reachable pr {root}"
    by (auto simp: reachable_def)
  with st(1,2) d show ?thesis by (auto simp: walk_inv_def)
qed

lemma walk_terminates_visits_once_example:
  "keyed_by_identity reg_AB \<and> length (packages reg_AB) < 3
   \<and> snd ` set (Imports pkg_A) = {''B''} \<and> snd ` set (Imports pkg_B) = {''A''}
   \<and> walk 3 reg_AB emptyWalk ''A''
       = Some \<lparr>acc = [(''A'', pkg_A), (''B'', pkg_B)], inserted = [''A'', ''B''], notFound = []\<rparr>
   \<and> reachable reg_AB {''A''} = {''A'', ''B''}"
proof -
  have k: "keyed_by_identity reg_AB"
    by (simp add: keyed_by_identity_def lookup_def reg_AB_def pkg_A_def pkg_B_def)
  have l: "length (packages reg_AB) < 3" by (simp add: reg_AB_def)
  have w: "walk 3 reg_AB emptyWalk ''A''
       = Some \<lparr>acc = [(''A'', pkg_A), (''B'', pkg_B)], inserted = [''A'', ''B''], notFound = []\<rparr>"
    by (simp add: eval_nat_numeral lookup_def reg_AB_def emptyWalk_def visit_def pkg_A_def pkg_B_def)
  from walk_terminates_visits_once [OF k l, of "''A''"] w
  have "reachable reg_AB {''A''} = {''A'', ''B''}" by auto
  with k l w show ?thesis by (simp add: pkg_A_def pkg_B_def)
qed

subsection \<open>Queries\<close>

lemma reachable_closed: "k \<in> reachable pr R \<Longrightarrow> import_edges pr `` {k} \<subseteq> reachable pr R"
  by (auto simp: reachable_def intro: rtrancl_into_rtrancl)

lemma reachable_roots: "R \<inter> keys pr \<subseteq> reachable pr R"
  by (auto simp: reachable_def)

lemma reachable_Un: "reachable pr (R \<union> S) = reachable pr R \<union> reachable pr S"
  by (auto simp: reachable_def)

lemma reachable_UN: "reachable pr R = (\<Union>r \<in> R. reachable pr {r})"
  by (auto simp: reachable_def)

lemma reachable_unregistered: "root \<notin> keys pr \<Longrightarrow> reachable pr (insert root R) = reachable pr R"
  by (auto simp: reachable_def)

lemma walk_top:
  assumes kbi: "keyed_by_identity pr" and inv: "walk_inv pr st"
    and vis: "visited st = reachable pr R" and fuel: "unvisited pr st + 1 < n"
  shows "\<exists>st'. walk n pr st root = Some st' \<and> walk_inv pr st'
           \<and> visited st' = reachable pr (insert root R)"
proof -
  from fuel obtain m where n: "n = Suc m" and m: "unvisited pr st < m"
    by (cases n) auto
  let ?E = "import_edges pr"
  show ?thesis
  proof (cases "lookup pr root")
    case None
    then have "root \<notin> keys pr" by (simp add: keys_lookup)
    then have "visited (report root st) = reachable pr (insert root R)"
      using vis by (simp add: reachable_unregistered visited_def report_def)
    with None n walk_inv_report [OF inv, of root] show ?thesis by simp
  next
    case (Some pkg)
    with kbi have idk: "ID pkg = root" by (simp add: keyed_by_identity_def)
    from Some have rk: "root \<in> keys pr" by (simp add: keys_lookup)
    have inv1: "walk_inv pr (visit pkg st)" using walk_inv_visit [OF inv Some idk] .
    have "unvisited pr (visit pkg st) \<le> unvisited pr st"
      by (rule unvisited_mono) (auto simp: visited_visit)
    with m have "unvisited pr (visit pkg st) < m" by simp
    from walk_grows(2) [OF kbi inv1 this, of "map snd (Imports pkg)"]
    obtain st' where st': "walk_imports m pr (visit pkg st) (map snd (Imports pkg)) = Some st'"
      "walk_inv pr st'" "grows pr (?E `` {root}) (visit pkg st) st'"
      by (auto simp: edges_of [OF Some])
    from st'(3) obtain new where new: "inserted st' = inserted (visit pkg st) @ new"
      "set new \<subseteq> ?E\<^sup>* `` (?E `` {root})"
      "\<forall>k \<in> set new. ?E `` {k} \<subseteq> set (inserted (visit pkg st)) \<union> set new"
      "?E `` {root} \<subseteq> set (inserted (visit pkg st)) \<union> set new"
      unfolding grows_def by blast
    have v1: "set (inserted (visit pkg st)) = insert root (reachable pr R)"
      using inv1 vis idk by (simp add: walk_inv_def visited_visit)
    have v': "visited st' = insert root (reachable pr R) \<union> set new"
      using st'(2) new(1) v1 by (simp add: walk_inv_def [of pr st'])
    have up: "visited st' \<subseteq> reachable pr (insert root R)"
    proof -
      have "?E\<^sup>* `` (?E `` {root}) \<subseteq> ?E\<^sup>* `` {root}"
        by (auto intro: converse_rtrancl_into_rtrancl)
      with new(2) rk have "set new \<subseteq> reachable pr (insert root R)"
        by (auto simp: reachable_def)
      moreover have "reachable pr R \<subseteq> reachable pr (insert root R)"
        by (auto simp: reachable_def)
      moreover have "root \<in> reachable pr (insert root R)"
        using rk by (auto simp: reachable_def)
      ultimately show ?thesis using v' by auto
    qed
    have down: "reachable pr (insert root R) \<subseteq> visited st'"
      unfolding reachable_def
    proof (rule closed_reach)
      show "insert root R \<inter> keys pr \<subseteq> visited st'"
        using v' reachable_roots [of R pr] by auto
      show "\<forall>k \<in> visited st'. ?E `` {k} \<subseteq> visited st'"
      proof
        fix k assume "k \<in> visited st'"
        then consider "k = root" | "k \<in> reachable pr R" | "k \<in> set new" using v' by auto
        then show "?E `` {k} \<subseteq> visited st'"
        proof cases
          case 1 with new(4) v1 v' show ?thesis by auto
        next
          case 2 from reachable_closed [OF this] v' show ?thesis by auto
        next
          case 3 with new(3) v1 v' show ?thesis by auto
        qed
      qed
    qed
    from up down Some n st'(1,2) show ?thesis by auto
  qed
qed

lemma walk_roots_reach:
  assumes kbi: "keyed_by_identity pr" and fuel: "length (packages pr) + 1 < n"
  shows "walk_inv pr st \<Longrightarrow> visited st = reachable pr R \<Longrightarrow>
         \<exists>st'. walk_roots n pr (rs0, st) rs = Some (rs0 @ rs, st') \<and> walk_inv pr st'
           \<and> visited st' = reachable pr (R \<union> set rs)"
proof (induction rs arbitrary: rs0 st R)
  case Nil
  then show ?case by simp
next
  case (Cons r rs)
  have "unvisited pr st + 1 < n" using unvisited_le [of pr st] fuel by simp
  from walk_top [OF kbi Cons.prems(1,2) this, of r]
  obtain st1 where st1: "walk n pr st r = Some st1" "walk_inv pr st1"
    "visited st1 = reachable pr (insert r R)" by blast
  from Cons.IH [OF st1(2,3), of "rs0 @ [r]"]
  obtain st' where "walk_roots n pr (rs0 @ [r], st1) rs = Some ((rs0 @ [r]) @ rs, st')"
    "walk_inv pr st'" "visited st' = reachable pr (insert r R \<union> set rs)" by blast
  with st1(1) show ?case by simp
qed

lemma distinct_mapI: "distinct (map f xs) \<Longrightarrow> distinct xs"
  by (simp add: distinct_map)

lemma retPkgs_set:
  assumes "keyed_by_identity pr" "walk_inv pr st"
  shows "set (retPkgs st) = {pkg. \<exists>k. k \<in> visited st \<and> lookup pr k = Some pkg}"
proof -
  from assms(2) have d: "distinct (map fst (acc st))"
    and c: "\<And>k pkg. map_of (acc st) k = Some pkg \<Longrightarrow> lookup pr k = Some pkg"
    by (auto simp: walk_inv_def)
  show ?thesis
  proof (intro set_eqI iffI)
    fix pkg assume "pkg \<in> set (retPkgs st)"
    then obtain k where "(k, pkg) \<in> set (acc st)" by (auto simp: retPkgs_def)
    with d have "map_of (acc st) k = Some pkg" by simp
    with c [OF this] show "pkg \<in> {pkg. \<exists>k. k \<in> visited st \<and> lookup pr k = Some pkg}"
      by (auto simp: visited_mem)
  next
    fix pkg assume "pkg \<in> {pkg. \<exists>k. k \<in> visited st \<and> lookup pr k = Some pkg}"
    then obtain k where k: "k \<in> visited st" "lookup pr k = Some pkg" by blast
    from k(1) obtain p where p: "map_of (acc st) k = Some p" by (auto simp: visited_mem)
    from c [OF p] k(2) have "p = pkg" by simp
    with p have "(k, pkg) \<in> set (acc st)" by (auto dest: map_of_SomeD)
    then show "pkg \<in> set (retPkgs st)" by (force simp: retPkgs_def)
  qed
qed

lemma retPkgs_distinct:
  assumes "keyed_by_identity pr" "walk_inv pr st"
  shows "distinct (retPkgs st)"
proof -
  from assms(2) have d: "distinct (map fst (acc st))"
    and c: "\<And>k pkg. map_of (acc st) k = Some pkg \<Longrightarrow> lookup pr k = Some pkg"
    by (auto simp: walk_inv_def)
  have "\<And>k pkg. (k, pkg) \<in> set (acc st) \<Longrightarrow> ID pkg = k"
    using c d assms(1) by (auto simp: keyed_by_identity_def)
  then have "map fst (acc st) = map (ID \<circ> snd) (acc st)" by auto
  with d have "distinct (map ID (map snd (acc st)))" by simp
  then have "distinct (map snd (acc st))" by (rule distinct_mapI)
  then show ?thesis by (simp add: retPkgs_def)
qed

lemma same_visits_visit: "same_visits s t \<Longrightarrow> same_visits (visit pkg s) (visit pkg t)"
  by (simp add: same_visits_def visit_def)

lemma same_visits_report: "same_visits s t \<Longrightarrow> same_visits (report r s) (report r' t)"
  by (simp add: same_visits_def report_def)

lemma walk_same_visits:
  "same_visits s t \<Longrightarrow> rel_option same_visits (walk n pr s root) (walk n pr t root)"
  "same_visits s t \<Longrightarrow> rel_option same_visits (walk_imports n pr s ts) (walk_imports n pr t ts)"
proof (induction n pr s root and n pr s ts arbitrary: t and t rule: walk_walk_imports.induct)
  case (1 pr st root)
  then show ?case by simp
next
  case (2 n pr st root)
  show ?case
  proof (cases "lookup pr root")
    case None
    with "2.prems" show ?thesis by (simp add: same_visits_report)
  next
    case (Some pkg)
    from "2.IH" [OF Some same_visits_visit [OF "2.prems"]] Some show ?thesis by simp
  qed
next
  case (3 n pr st)
  then show ?case by simp
next
  case (4 n pr st pkgID rest)
  from "4.prems" have a: "acc t = acc st" by (simp add: same_visits_def)
  show ?case
  proof (cases "map_of (acc st) pkgID = None")
    case True
    from "4.IH"(1) [OF True "4.prems"]
    have r: "rel_option same_visits (walk n pr st pkgID) (walk n pr t pkgID)" .
    show ?thesis
    proof (cases "walk n pr st pkgID")
      case None
      with r have "walk n pr t pkgID = None" by simp
      with None True a show ?thesis by simp
    next
      case (Some s1)
      with r obtain t1 where t1: "walk n pr t pkgID = Some t1" "same_visits s1 t1"
        by (auto simp: option_rel_Some1)
      from "4.IH"(2) [OF True Some t1(2)] True a Some t1(1) show ?thesis by simp
    qed
  next
    case False
    from "4.IH"(3) [OF False "4.prems"] False a show ?thesis by auto
  qed
qed

lemma walk_roots_same_visits:
  "same_visits s t \<Longrightarrow>
   rel_option (\<lambda>(a, s') (b, t'). a = rs @ qs \<and> b = rs' @ qs \<and> same_visits s' t')
     (walk_roots n pr (rs, s) qs) (walk_roots n pr (rs', t) qs)"
proof (induction qs arbitrary: rs rs' s t)
  case Nil
  then show ?case by simp
next
  case (Cons q qs)
  from walk_same_visits(1) [OF Cons.prems, of n pr q]
  have r: "rel_option same_visits (walk n pr s q) (walk n pr t q)" .
  show ?case
  proof (cases "walk n pr s q")
    case None
    with r have "walk n pr t q = None" by simp
    with None show ?thesis by simp
  next
    case (Some s1)
    with r obtain t1 where t1: "walk n pr t q = Some t1" "same_visits s1 t1"
      by (auto simp: option_rel_Some1)
    from Cons.IH [OF t1(2), of "rs @ [q]" "rs' @ [q]"] Some t1(1) show ?thesis by simp
  qed
qed

lemma walk_roots_append:
  "walk_roots n pr (rs, s) (xs @ ys) =
     (case walk_roots n pr (rs, s) xs of None \<Rightarrow> None | Some p \<Rightarrow> walk_roots n pr p ys)"
  by (induction xs arbitrary: rs s) (auto split: option.splits)

lemma walk_roots_retRoots:
  "walk_roots n pr (rs, s) qs = Some (rs', s') \<Longrightarrow> rs' = rs @ qs"
proof (induction qs arbitrary: rs s)
  case Nil
  then show ?case by simp
next
  case (Cons q qs)
  from Cons.prems obtain s1 where "walk n pr s q = Some s1"
    "walk_roots n pr (rs @ [q], s1) qs = Some (rs', s')"
    by (auto split: option.splits)
  from Cons.IH [OF this(2)] show ?case by simp
qed

text \<open>
  Claim C6. A walk from a root that the registry does not hold returns at once: it writes
  nothing to the map of visited packages and only reports the root to the logger. A query
  that holds such a root returns what the query on the other roots returns, with the root
  among the roots it gives back.
\<close>

theorem walk_missing_root:
  assumes "lookup pr root = None"
  shows "walk (Suc n) pr st root = Some (report root st)
         \<and> acc (report root st) = acc st
         \<and> inserted (report root st) = inserted st
         \<and> notFound (report root st) = notFound st @ [root]
         \<and> Query (Suc n) pr (xs @ root # ys)
             = map_option (\<lambda>(retRoots, pkgs). (xs @ root # ys, pkgs)) (Query (Suc n) pr (xs @ ys))"
proof -
  have w: "walk (Suc n) pr s root = Some (report root s)" for s using assms by simp
  have q: "Query (Suc n) pr (xs @ root # ys)
             = map_option (\<lambda>(retRoots, pkgs). (xs @ root # ys, pkgs)) (Query (Suc n) pr (xs @ ys))"
  proof (cases "walk_roots (Suc n) pr ([], emptyWalk) xs")
    case None
    then show ?thesis by (simp add: Query_def walk_roots_append)
  next
    case (Some p)
    obtain rs s where p: "p = (rs, s)" by (cases p)
    have sv: "same_visits (report root s) s" by (simp add: same_visits_def report_def)
    from walk_roots_same_visits [OF sv, of "rs @ [root]" ys rs "Suc n" pr]
    have r: "rel_option (\<lambda>(a, s') (b, t'). a = (rs @ [root]) @ ys \<and> b = rs @ ys \<and> same_visits s' t')
       (walk_roots (Suc n) pr (rs @ [root], report root s) ys) (walk_roots (Suc n) pr (rs, s) ys)" .
    from Some p have rs: "rs = xs" using walk_roots_retRoots [of "Suc n" pr "[]" emptyWalk xs rs s] by simp
    show ?thesis
    proof (cases "walk_roots (Suc n) pr (rs, s) ys")
      case None
      with r have "walk_roots (Suc n) pr (rs @ [root], report root s) ys = None" by simp
      with None Some p w show ?thesis by (simp add: Query_def walk_roots_append)
    next
      case (Some b)
      with r obtain a where a: "walk_roots (Suc n) pr (rs @ [root], report root s) ys = Some a"
        "(\<lambda>(a, s') (b, t'). a = (rs @ [root]) @ ys \<and> b = rs @ ys \<and> same_visits s' t') a b"
        by (auto simp: option_rel_Some2)
      obtain ra sa rb sb where ab: "a = (ra, sa)" "b = (rb, sb)" by (cases a, cases b) blast
      from a(2) rs ab have "ra = xs @ root # ys" "retPkgs sa = retPkgs sb"
        by (auto simp: same_visits_def retPkgs_def)
      with Some a(1) ab \<open>walk_roots (Suc n) pr ([], emptyWalk) xs = Some p\<close> p w show ?thesis
        by (simp add: Query_def walk_roots_append)
    qed
  qed
  show ?thesis using w q by (simp add: report_def)
qed

theorem walk_missing_root_witness:
  "lookup reg_AB ''C'' = None
   \<and> walk 1 reg_AB emptyWalk ''C'' = Some \<lparr>acc = [], inserted = [], notFound = [''C'']\<rparr>
   \<and> Query 4 reg_AB [''C'', ''A''] = Some ([''C'', ''A''], [pkg_A, pkg_B])"
proof -
  have l: "lookup reg_AB ''C'' = None" by (simp add: lookup_def reg_AB_def)
  have q: "Query 4 reg_AB [''A''] = Some ([''A''], [pkg_A, pkg_B])"
    by (simp add: Query_def retPkgs_def eval_nat_numeral lookup_def reg_AB_def emptyWalk_def
        visit_def pkg_A_def pkg_B_def)
  from walk_missing_root [OF l, of 0 emptyWalk "[]" "[''A'']"]
    walk_missing_root [OF l, of 3 emptyWalk "[]" "[''A'']"] l q
  show ?thesis by (simp add: report_def emptyWalk_def)
qed

text \<open>
  In a registry that stores every package under its own identity, when the stack has room
  for the nested calls, \<^verbatim>\<open>Query\<close> returns the roots it was given, as given, and the packages
  of the keys its roots reach: each once, the union over the roots of what each root
  reaches, whatever the order of the roots.
\<close>

lemma Query_reachable:
  assumes "keyed_by_identity pr" "length (packages pr) + 1 < n"
  shows "\<exists>pkgs. Query n pr queries = Some (queries, pkgs)
           \<and> distinct pkgs
           \<and> set pkgs = (\<Union>r \<in> set queries. {pkg. \<exists>k. k \<in> reachable pr {r} \<and> lookup pr k = Some pkg})"
proof -
  have "visited emptyWalk = reachable pr {}" by (simp add: visited_def emptyWalk_def reachable_def)
  from walk_roots_reach [OF assms walk_inv_empty this, of "[]" queries]
  obtain st where st: "walk_roots n pr ([], emptyWalk) queries = Some (queries, st)"
    "walk_inv pr st" "visited st = reachable pr (set queries)" by auto
  have "set (retPkgs st) = (\<Union>r \<in> set queries. {pkg. \<exists>k. k \<in> reachable pr {r} \<and> lookup pr k = Some pkg})"
    unfolding retPkgs_set [OF assms(1) st(2)] st(3) reachable_UN [of pr "set queries"] by blast
  with st(1) retPkgs_distinct [OF assms(1) st(2)] show ?thesis by (simp add: Query_def)
qed

lemma Query_reachable_example:
  "keyed_by_identity reg_AB \<and> length (packages reg_AB) + 1 < 4
   \<and> Query 4 reg_AB [''B'', ''C'', ''A'', ''B''] = Some ([''B'', ''C'', ''A'', ''B''], [pkg_B, pkg_A])
   \<and> (\<Union>r \<in> {''A'', ''B'', ''C''}. {pkg. \<exists>k. k \<in> reachable reg_AB {r} \<and> lookup reg_AB k = Some pkg})
       = {pkg_A, pkg_B}"
proof -
  have k: "keyed_by_identity reg_AB"
    by (simp add: keyed_by_identity_def lookup_def reg_AB_def pkg_A_def pkg_B_def)
  have l: "length (packages reg_AB) + 1 < 4" by (simp add: reg_AB_def)
  have q: "Query 4 reg_AB [''B'', ''C'', ''A'', ''B''] = Some ([''B'', ''C'', ''A'', ''B''], [pkg_B, pkg_A])"
    by (simp add: Query_def retPkgs_def eval_nat_numeral lookup_def reg_AB_def emptyWalk_def
        visit_def report_def pkg_A_def pkg_B_def)
  from Query_reachable [OF k l, of "[''B'', ''C'', ''A'', ''B'']"] q
  have "(\<Union>r \<in> {''A'', ''B'', ''C''}. {pkg. \<exists>k. k \<in> reachable reg_AB {r} \<and> lookup reg_AB k = Some pkg})
       = {pkg_A, pkg_B}" by auto
  with k l q show ?thesis by simp
qed

subsection \<open>Registration\<close>

lemma lookup_store: "lookup (store k v pr) k' = (if k' = k then Some v else lookup pr k')"
  by (simp add: lookup_def store_def update_conv')

lemma stdlib_store: "stdlib (store k v pr) = stdlib pr"
  by (simp add: store_def)

lemma keys_store: "keys (store k v pr) = insert k (keys pr)"
  by (simp add: keys_def store_def dom_update)

lemma keys_unique_store: "keys_unique pr \<Longrightarrow> keys_unique (store k v pr)"
  by (simp add: keys_unique_def store_def distinct_update)

lemma rewritePackage_fields:
  "ID (rewritePackage pkg) = PkgPath pkg" "PkgPath (rewritePackage pkg) = PkgPath pkg"
  "GoFiles (rewritePackage pkg) = GoFiles pkg" "Standard (rewritePackage pkg) = Standard pkg"
  "map fst (Imports (rewritePackage pkg)) = map fst (Imports pkg)"
  by (simp_all add: rewritePackage_def Let_def case_prod_unfold comp_def)

lemma lookup_stdlib_update: "lookup (pr\<lparr>stdlib := m\<rparr>) = lookup pr"
  by (simp add: lookup_def fun_eq_iff)

lemma lookup_Add1:
  "lookup (Add1 pr pkg) k = (if k = PkgPath pkg then Some (rewritePackage pkg) else lookup pr k)"
  by (simp add: Add1_def Let_def lookup_store rewritePackage_fields lookup_stdlib_update)

lemma stdlib_Add1:
  "stdlib (Add1 pr pkg) =
     (if Standard pkg then (stdlib pr)(PkgPath pkg \<mapsto> PkgPath pkg) else stdlib pr)"
  by (simp add: Add1_def Let_def stdlib_store rewritePackage_fields IsStdlib_def)

lemma keyed_by_identity_Add1: "keyed_by_identity pr \<Longrightarrow> keyed_by_identity (Add1 pr pkg)"
  by (simp add: keyed_by_identity_def lookup_Add1 rewritePackage_fields)

lemma keyed_by_identity_Add: "keyed_by_identity pr \<Longrightarrow> keyed_by_identity (Add pr pkgs)"
  by (induction pkgs arbitrary: pr) (simp_all add: keyed_by_identity_Add1)

lemma keyed_by_identity_empty: "keyed_by_identity emptyRegistry"
  by (simp add: keyed_by_identity_def lookup_def emptyRegistry_def)

lemma keyed_by_identity_New: "keyed_by_identity (NewPackageRegistry pkgs)"
  by (simp add: NewPackageRegistry_def keyed_by_identity_Add keyed_by_identity_empty)

lemma keys_unique_stdlib_update: "keys_unique (pr\<lparr>stdlib := m\<rparr>) = keys_unique pr"
  by (simp add: keys_unique_def)

lemma keys_unique_Add1: "keys_unique pr \<Longrightarrow> keys_unique (Add1 pr pkg)"
  by (simp add: Add1_def Let_def keys_unique_store keys_unique_stdlib_update)

lemma keys_unique_Add: "keys_unique pr \<Longrightarrow> keys_unique (Add pr pkgs)"
  by (induction pkgs arbitrary: pr) (simp_all add: keys_unique_Add1)

lemma keys_unique_Update: "keys_unique pr \<Longrightarrow> Update pr pkg = Inr pr' \<Longrightarrow> keys_unique pr'"
  by (auto simp: Update_def keys_unique_store split: option.splits sum.splits if_splits)

lemma keyed_by_identity_Update:
  assumes "keyed_by_identity pr" "Update pr pkg = Inr pr'"
    and "lookup pr (PkgPath pkg) = None \<Longrightarrow> ID pkg = PkgPath pkg"
  shows "keyed_by_identity pr'"
proof (cases "lookup pr (PkgPath pkg)")
  case None
  with assms show ?thesis
    by (auto simp: Update_def keyed_by_identity_def lookup_store split: if_splits)
next
  case (Some existing)
  with assms(1) have "ID (existing\<lparr>GoFiles := GoFiles pkg\<rparr>) = PkgPath pkg"
    by (simp add: keyed_by_identity_def)
  with assms(1,2) Some show ?thesis
    by (auto simp: Update_def keyed_by_identity_def lookup_store split: sum.splits if_splits)
qed

lemma Add_identity:
  "lookup (Add pr pkgs) k = Some p \<Longrightarrow> k \<in> PkgPath ` set pkgs \<Longrightarrow> ID p = k \<and> PkgPath p = k"
proof (induction pkgs arbitrary: pr)
  case Nil
  then show ?case by simp
next
  case (Cons pkg pkgs)
  show ?case
  proof (cases "k \<in> PkgPath ` set pkgs")
    case True
    with Cons.IH [of "Add1 pr pkg"] Cons.prems(1) show ?thesis by simp
  next
    case False
    with Cons.prems(2) have k: "k = PkgPath pkg" by auto
    have "lookup (Add pr' pkgs) k = lookup pr' k" for pr'
      using False by (induction pkgs arbitrary: pr') (auto simp: lookup_Add1)
    with Cons.prems(1) k show ?thesis by (auto simp: lookup_Add1 rewritePackage_fields)
  qed
qed

lemma Update_new:
  "lookup pr (PkgPath pkg) = None \<Longrightarrow> Update pr pkg = Inr (store (PkgPath pkg) pkg pr)"
  by (simp add: Update_def)

lemma Update_existing:
  assumes "lookup pr (PkgPath pkg) = Some existing" "GoFiles existing \<noteq> []"
  shows "Update pr pkg =
    Inr (if subseq (GoFiles existing) (GoFiles pkg)
         then store (PkgPath pkg) (existing\<lparr>GoFiles := GoFiles pkg\<rparr>) pr else pr)"
  using assms by (simp add: Update_def isSuperset_nonempty)

lemma Update_frame:
  assumes "Update pr pkg = Inr pr'" "lookup pr (PkgPath pkg) = Some existing"
  shows "stdlib pr' = stdlib pr"
    and "k \<noteq> PkgPath pkg \<Longrightarrow> lookup pr' k = lookup pr k"
    and "\<exists>files. lookup pr' (PkgPath pkg) = Some (existing\<lparr>GoFiles := files\<rparr>)"
    and "keys pr' = keys pr"
proof -
  from assms have c: "pr' = pr \<or> pr' = store (PkgPath pkg) (existing\<lparr>GoFiles := GoFiles pkg\<rparr>) pr"
    by (auto simp: Update_def split: sum.splits if_splits)
  from c show "stdlib pr' = stdlib pr" by (auto simp: stdlib_store)
  from c show "k \<noteq> PkgPath pkg \<Longrightarrow> lookup pr' k = lookup pr k" by (auto simp: lookup_store)
  from c show "\<exists>files. lookup pr' (PkgPath pkg) = Some (existing\<lparr>GoFiles := files\<rparr>)"
  proof (elim disjE)
    assume "pr' = pr"
    with assms(2) have "lookup pr' (PkgPath pkg) = Some (existing\<lparr>GoFiles := GoFiles existing\<rparr>)" by simp
    then show ?thesis ..
  next
    assume "pr' = store (PkgPath pkg) (existing\<lparr>GoFiles := GoFiles pkg\<rparr>) pr"
    then have "lookup pr' (PkgPath pkg) = Some (existing\<lparr>GoFiles := GoFiles pkg\<rparr>)"
      by (simp add: lookup_store)
    then show ?thesis ..
  qed
  from assms(2) have "PkgPath pkg \<in> keys pr" by (simp add: keys_lookup)
  with c show "keys pr' = keys pr" by (auto simp: keys_store)
qed

lemma Update_spec_examples:
  "Update \<lparr>packages = [(''example.com/app'', pkg_app)], stdlib = Map.empty\<rparr>
      (pkg_app\<lparr>GoFiles := [''a.go'', ''c.go'', ''b.go'']\<rparr>)
     = Inr \<lparr>packages = [(''example.com/app'', pkg_app\<lparr>GoFiles := [''a.go'', ''c.go'', ''b.go'']\<rparr>)],
            stdlib = Map.empty\<rparr>"
  "Update \<lparr>packages = [(''example.com/app'', pkg_app)], stdlib = Map.empty\<rparr>
      (pkg_app\<lparr>GoFiles := [''a.go'']\<rparr>)
     = Inr \<lparr>packages = [(''example.com/app'', pkg_app)], stdlib = Map.empty\<rparr>"
  by (simp_all add: Update_def lookup_def store_def isSuperset_def pkg_app_def)

text \<open>
  Claim C2. Every registration is to leave the stored package with its identity equal to
  its path. \<^verbatim>\<open>Add\<close> does (\<open>Add_identity\<close>); the branch of \<^verbatim>\<open>Update\<close> that inserts a new
  package stores it as it came, without the rewriting that \<^verbatim>\<open>Add\<close> applies. Here the
  package of path \<^verbatim>\<open>example.com/app\<close> keeps the identity \<^verbatim>\<open>@//app:lib\<close>.
\<close>

theorem Update_insert_keeps_raw_identity:
  "Update emptyRegistry pkg_app
     = Inr \<lparr>packages = [(''example.com/app'', pkg_app)], stdlib = Map.empty\<rparr>
   \<and> PkgPath pkg_app = ''example.com/app'' \<and> ID pkg_app = ''@//app:lib''
   \<and> Add emptyRegistry [pkg_app]
     = \<lparr>packages = [(''example.com/app'', pkg_app\<lparr>ID := ''example.com/app'',
          Imports := [(''fmt'', ''fmt''), (''example.com/foo'', ''example.com/foo'')]\<rparr>)],
         stdlib = Map.empty\<rparr>"
  by (simp add: Update_def Add1_def lookup_def store_def emptyRegistry_def pkg_app_def
      rewritePackage_def canonicalizeId_def stdlibPrefix_def IsStdlib_def)

text \<open>
  Claim C3. \<^verbatim>\<open>Update\<close> of a path that is registered is to replace the file list exactly
  when the old list is a subsequence of the new one, and to leave everything else as it
  is. It does when the old list is not empty (\<open>Update_existing\<close>, \<open>Update_frame\<close>). When
  the old list is empty and the new one is not, the old list is a subsequence of the new
  one, and \<^verbatim>\<open>Update\<close> panics in \<^verbatim>\<open>isSuperset\<close>.
\<close>

theorem Update_empty_file_list_panics:
  "lookup reg_gen (PkgPath pkg_gen) = Some pkg_nofiles
   \<and> subseq (GoFiles pkg_nofiles) (GoFiles pkg_gen)
   \<and> Update reg_gen pkg_gen = Inl IndexOutOfRange"
  by (simp add: Update_def lookup_def reg_gen_def pkg_gen_def pkg_nofiles_def isSuperset_def)

subsection \<open>Walks and queries after \<^verbatim>\<open>Update\<close>\<close>

text \<open>
  In the registry that two calls of \<^verbatim>\<open>Update\<close> build from two packages that import each
  other, a walk from either looks for the path of the other in a map keyed by labels,
  finds nothing and calls itself again: it returns for no depth of the stack.
\<close>

lemma walk_raw_no_return:
  "map_of (acc st) ''A'' = None \<Longrightarrow> map_of (acc st) ''B'' = None \<Longrightarrow>
     walk n reg_raw st ''A'' = None \<and> walk n reg_raw st ''B'' = None"
proof (induction n arbitrary: st)
  case 0
  then show ?case by simp
next
  case (Suc n)
  have a: "map_of (acc (visit raw_A st)) ''A'' = None" "map_of (acc (visit raw_A st)) ''B'' = None"
    using Suc.prems by (simp_all add: visit_def update_conv' raw_A_def)
  have b: "map_of (acc (visit raw_B st)) ''A'' = None" "map_of (acc (visit raw_B st)) ''B'' = None"
    using Suc.prems by (simp_all add: visit_def update_conv' raw_B_def)
  have la: "lookup reg_raw ''A'' = Some raw_A" "lookup reg_raw ''B'' = Some raw_B"
    by (simp_all add: lookup_def reg_raw_def)
  have ia: "map snd (Imports raw_A) = [''B'']" "map snd (Imports raw_B) = [''A'']"
    by (simp_all add: raw_A_def raw_B_def)
  from Suc.IH [OF a] Suc.IH [OF b] a b la ia show ?case by simp
qed

lemma Update_builds_reg_raw:
  "register step split emptyRegistry [DoUpdate raw_A, DoUpdate raw_B] = Inr reg_raw"
  by (simp add: Update_def lookup_def store_def emptyRegistry_def reg_raw_def raw_A_def raw_B_def)

lemma Update_builds_reg_shared:
  "register step split emptyRegistry [DoUpdate raw_P, DoUpdate raw_Q] = Inr reg_shared"
  by (simp add: Update_def lookup_def store_def emptyRegistry_def reg_shared_def raw_P_def raw_Q_def)

text \<open>
  Claim C5. A walk is to return on every registry with a cycle among its imports, having
  written each key the root reaches to the map once. It does where every package is
  stored under its own identity (\<open>walk_terminates_visits_once\<close>). \<^verbatim>\<open>Update\<close> stores a new
  package under its path with the identity it came with: after \<^verbatim>\<open>Update\<close> of two packages
  that import each other, the walk from the first never returns, whatever room the stack
  has, since the test of \<^verbatim>\<open>acc\<close> before the call looks for a path among labels.
\<close>

theorem walk_after_Update_never_returns:
  "Update emptyRegistry raw_A = Inr (store ''A'' raw_A emptyRegistry)
   \<and> Update (store ''A'' raw_A emptyRegistry) raw_B = Inr reg_raw
   \<and> map snd (Imports raw_A) = [''B''] \<and> map snd (Imports raw_B) = [''A'']
   \<and> walk n reg_raw emptyWalk ''A'' = None"
proof -
  have "walk n reg_raw emptyWalk ''A'' = None"
    using walk_raw_no_return [of emptyWalk n] by (simp add: emptyWalk_def)
  then show ?thesis
    by (simp add: Update_def lookup_def store_def emptyRegistry_def reg_raw_def raw_A_def raw_B_def)
qed

text \<open>
  Claim C7. \<^verbatim>\<open>Query\<close> is to return its roots and, once each, the packages that its roots
  reach. It does where every package is stored under its own identity
  (\<open>Query_reachable\<close>). After \<^verbatim>\<open>Update\<close> of two packages that import each other it never
  returns; after \<^verbatim>\<open>Update\<close> of two packages that came with one identity it returns one
  package for two roots, the second written over the first in the map.
\<close>

theorem Query_after_Update_fails:
  "Update emptyRegistry raw_A = Inr (store ''A'' raw_A emptyRegistry)
   \<and> Update (store ''A'' raw_A emptyRegistry) raw_B = Inr reg_raw
   \<and> Query n reg_raw [''A''] = None
   \<and> Update emptyRegistry raw_P = Inr (store ''P'' raw_P emptyRegistry)
   \<and> Update (store ''P'' raw_P emptyRegistry) raw_Q = Inr reg_shared
   \<and> lookup reg_shared ''P'' = Some raw_P \<and> lookup reg_shared ''Q'' = Some raw_Q
   \<and> raw_P \<noteq> raw_Q
   \<and> Query 2 reg_shared [''P'', ''Q''] = Some ([''P'', ''Q''], [raw_Q])"
proof -
  have a: "Query n reg_raw [''A''] = None"
    using walk_raw_no_return [of emptyWalk n] by (simp add: Query_def emptyWalk_def)
  have b: "Update emptyRegistry raw_A = Inr (store ''A'' raw_A emptyRegistry)"
    "Update (store ''A'' raw_A emptyRegistry) raw_B = Inr reg_raw"
    by (simp_all add: Update_def lookup_def store_def emptyRegistry_def reg_raw_def raw_A_def raw_B_def)
  have c: "Update emptyRegistry raw_P = Inr (store ''P'' raw_P emptyRegistry)"
    "Update (store ''P'' raw_P emptyRegistry) raw_Q = Inr reg_shared"
    by (simp_all add: Update_def lookup_def store_def emptyRegistry_def reg_shared_def raw_P_def raw_Q_def)
  have d: "lookup reg_shared ''P'' = Some raw_P" "lookup reg_shared ''Q'' = Some raw_Q" "raw_P \<noteq> raw_Q"
    by (simp_all add: lookup_def reg_shared_def raw_P_def raw_Q_def)
  have e: "Query 2 reg_shared [''P'', ''Q''] = Some ([''P'', ''Q''], [raw_Q])"
    by (simp add: Query_def retPkgs_def eval_nat_numeral lookup_def reg_shared_def emptyWalk_def
        visit_def raw_P_def raw_Q_def)
  from a b c d e show ?thesis by simp
qed

subsection \<open>The standard-library index\<close>

lemma index_registered_store: "index_registered pr \<Longrightarrow> index_registered (store k v pr)"
  unfolding index_registered_def by (simp add: lookup_store stdlib_store) blast

lemma index_registered_Add1: "index_registered pr \<Longrightarrow> index_registered (Add1 pr pkg)"
  unfolding index_registered_def by (simp add: lookup_Add1 stdlib_Add1) blast

lemma index_registered_Add: "index_registered pr \<Longrightarrow> index_registered (Add pr pkgs)"
  by (induction pkgs arbitrary: pr) (simp_all add: index_registered_Add1)

lemma index_registered_Update:
  "index_registered pr \<Longrightarrow> Update pr pkg = Inr pr' \<Longrightarrow> index_registered pr'"
  by (auto simp: Update_def index_registered_store split: option.splits sum.splits if_splits)

lemma index_registered_ResolveImports_loop:
  "index_registered pr \<Longrightarrow> index_registered (snd (ResolveImports_loop step split pr ks))"
  by (induction ks arbitrary: pr)
     (auto simp: index_registered_store split: option.splits prod.splits)

lemma flagged_as_store:
  "flagged_as flag pr \<Longrightarrow> Standard v = flag k \<Longrightarrow> flagged_as flag (store k v pr)"
  by (simp add: flagged_as_def lookup_store stdlib_store)

lemma flagged_as_Add1:
  "flagged_as flag pr \<Longrightarrow> Standard pkg = flag (PkgPath pkg) \<Longrightarrow> flagged_as flag (Add1 pr pkg)"
  by (auto simp: flagged_as_def lookup_Add1 stdlib_Add1 rewritePackage_fields split: if_splits)

lemma flagged_as_Add:
  "flagged_as flag pr \<Longrightarrow> list_all (\<lambda>pkg. Standard pkg = flag (PkgPath pkg)) pkgs \<Longrightarrow>
     flagged_as flag (Add pr pkgs)"
  by (induction pkgs arbitrary: pr) (simp_all add: flagged_as_Add1)

lemma flagged_as_Update:
  assumes "flagged_as flag pr" "Standard pkg = flag (PkgPath pkg)" "Update pr pkg = Inr pr'"
  shows "flagged_as flag pr'"
proof (cases "lookup pr (PkgPath pkg)")
  case None
  with assms show ?thesis by (auto simp: Update_def flagged_as_store)
next
  case (Some existing)
  with assms(1) have "Standard (existing\<lparr>GoFiles := GoFiles pkg\<rparr>) = flag (PkgPath pkg)"
    by (simp add: flagged_as_def)
  with assms Some show ?thesis
    by (auto simp: Update_def flagged_as_store split: sum.splits if_splits)
qed

lemma flagged_as_ResolveImports_loop:
  assumes "keeps_flags flag step split"
  shows "flagged_as flag pr \<Longrightarrow> flagged_as flag (snd (ResolveImports_loop step split pr ks))"
proof (induction ks arbitrary: pr)
  case Nil
  then show ?case by simp
next
  case (Cons k ks)
  show ?case
  proof (cases "lookup pr k")
    case None
    with Cons show ?thesis by simp
  next
    case (Some pkg)
    obtain pkg1 e where s: "step (resolve pr) pkg = (pkg1, e)" by (cases "step (resolve pr) pkg")
    obtain pkg2 t where sp: "split pkg1 = (pkg2, t)" by (cases "split pkg1")
    from Cons.prems Some have f: "Standard pkg = flag k" by (simp add: flagged_as_def)
    from assms s have f1: "Standard pkg1 = Standard pkg"
      by (metis fst_conv keeps_flags_def)
    from assms sp have f2: "Standard pkg2 = Standard pkg1"
      by (metis fst_conv keeps_flags_def)
    have a1: "flagged_as flag (store k pkg1 pr)"
      using flagged_as_store [OF Cons.prems] f f1 by simp
    have a2: "flagged_as flag (store k pkg2 pr)"
      using flagged_as_store [OF Cons.prems] f f1 f2 by simp
    show ?thesis
    proof (cases e)
      case (Some err)
      with \<open>lookup pr k = Some pkg\<close> s a1 show ?thesis by simp
    next
      case None
      show ?thesis
      proof (cases t)
        case None
        with \<open>e = None\<close> \<open>lookup pr k = Some pkg\<close> s sp Cons.IH [OF a2] show ?thesis by simp
      next
        case (Some testFp)
        with assms sp have "Standard testFp = flag (ID testFp)"
          by (metis snd_conv keeps_flags_def)
        from flagged_as_store [OF a2 this] have "flagged_as flag (store (ID testFp) testFp (store k pkg2 pr))" .
        from Cons.IH [OF this] Some \<open>e = None\<close> \<open>lookup pr k = Some pkg\<close> s sp show ?thesis by simp
      qed
    qed
  qed
qed

lemma register_invariants:
  assumes "register step split pr0 ops = Inr pr" "index_registered pr0"
  shows "index_registered pr"
    and "flags_agree flag ops \<Longrightarrow> keeps_flags flag step split \<Longrightarrow> flagged_as flag pr0 \<Longrightarrow> flagged_as flag pr"
  using assms
proof (induction step split pr0 ops rule: register.induct)
  case (1 step split pr0)
  { case 1 then show ?case by simp }
  { case 2 then show ?case by simp }
next
  case (2 step split pr0 pkgs ops)
  { case 1 with "2.IH"(1) show ?case by (simp add: index_registered_Add) }
  { case 2 with "2.IH"(2) show ?case
      by (simp add: index_registered_Add flagged_as_Add flags_agree_def) }
next
  case (3 step split pr0 pkg ops)
  { case 1 with "3.IH"(1) show ?case
      by (auto split: sum.splits dest: index_registered_Update) }
  { case 2 with "3.IH"(2) show ?case
      by (auto simp: flags_agree_def split: sum.splits
          dest: index_registered_Update intro: flagged_as_Update) }
next
  case (4 step split pr0 order ops)
  { case 1 with "4.IH"(1) show ?case
      by (simp add: ResolveImports_def index_registered_ResolveImports_loop) }
  { case 2 with "4.IH"(2) show ?case
      by (simp add: ResolveImports_def index_registered_ResolveImports_loop
          flagged_as_ResolveImports_loop flags_agree_def) }
qed

text \<open>
  Claim C10, as amended. After any run of \<^verbatim>\<open>Add\<close>, \<^verbatim>\<open>Update\<close> and \<^verbatim>\<open>ResolveImports\<close> from
  the empty registry, every entry of the standard-library index maps a path to itself, and
  the registry holds a package at that path. That package is flagged standard-library
  when all packages registered under one path carry the same flag and the methods that
  \<^verbatim>\<open>ResolveImports\<close> calls keep the flags.
\<close>

theorem index_after_operations:
  assumes "register step split emptyRegistry ops = Inr pr"
  shows "index_registered pr
         \<and> (flags_agree flag ops \<and> keeps_flags flag step split \<longrightarrow> index_flagged pr)"
proof -
  have e: "index_registered emptyRegistry" "flagged_as flag emptyRegistry"
    by (simp_all add: index_registered_def flagged_as_def emptyRegistry_def lookup_def)
  from register_invariants(1) [OF assms e(1)] have r: "index_registered pr" .
  have "index_flagged pr" if "flags_agree flag ops" "keeps_flags flag step split"
  proof -
    from register_invariants(2) [OF assms e(1) that e(2)] have "flagged_as flag pr" .
    with r show ?thesis
      by (fastforce simp: index_flagged_def index_registered_def flagged_as_def)
  qed
  with r show ?thesis by blast
qed

lemma keeps_flags_ex: "keeps_flags (\<lambda>k. k = ''fmt'') step_ex split_ex"
proof -
  have "xs @ ''_xtest'' \<noteq> ''fmt''" for xs :: string
  proof
    assume "xs @ ''_xtest'' = ''fmt''"
    then have "length (xs @ ''_xtest'') = length ''fmt''" by simp
    then show False by simp
  qed
  then show ?thesis
    by (auto simp: keeps_flags_def step_ex_def fill_unresolved_def split_ex_def split: if_splits)
qed

theorem index_after_operations_witness:
  "register step_ex split_ex emptyRegistry ops_ex = Inr reg_ops
   \<and> flags_agree (\<lambda>k. k = ''fmt'') ops_ex
   \<and> keeps_flags (\<lambda>k. k = ''fmt'') step_ex split_ex
   \<and> index_registered reg_ops \<and> index_flagged reg_ops
   \<and> stdlib reg_ops ''fmt'' = Some ''fmt''
   \<and> lookup reg_ops ''fmt'' = Some (pkg_fmt\<lparr>ID := ''fmt''\<rparr>) \<and> Standard (pkg_fmt\<lparr>ID := ''fmt''\<rparr>)"
proof -
  have r: "register step_ex split_ex emptyRegistry ops_ex = Inr reg_ops"
    by (simp add: ops_ex_def reg_ops_def emptyRegistry_def Add1_def Update_def ResolveImports_def
        rewritePackage_def canonicalizeId_def stdlibPrefix_def IsStdlib_def lookup_def store_def
        resolve_def step_ex_def fill_unresolved_def split_ex_def suffix_to_prefix
        pkg_fmt_def pkg_tested_def pkg_gen_def pkg_nofiles_def pkg_tested_split_def
        pkg_tested_xtest_def)
  have f: "flags_agree (\<lambda>k. k = ''fmt'') ops_ex"
    by (simp add: flags_agree_def ops_ex_def pkg_fmt_def pkg_tested_def pkg_gen_def pkg_nofiles_def)
  from index_after_operations [OF r, of "\<lambda>k. k = ''fmt''"] f keeps_flags_ex
  have "index_registered reg_ops" "index_flagged reg_ops" by simp_all
  moreover have "stdlib reg_ops ''fmt'' = Some ''fmt''"
    "lookup reg_ops ''fmt'' = Some (pkg_fmt\<lparr>ID := ''fmt''\<rparr>)" "Standard (pkg_fmt\<lparr>ID := ''fmt''\<rparr>)"
    by (simp_all add: reg_ops_def lookup_def pkg_fmt_def)
  ultimately show ?thesis using r f keeps_flags_ex by simp
qed

text \<open>
  Claim C10, as stated, fails: \<^verbatim>\<open>Add\<close> of a flagged package and then of a package of the
  same path that is not flagged leaves the index entry of the first with the node of the
  second.
\<close>

theorem index_entry_of_unflagged_node:
  "stdlib (Add emptyRegistry [pkg_fmt, pkg_fmt_fork]) ''fmt'' = Some ''fmt''
   \<and> lookup (Add emptyRegistry [pkg_fmt, pkg_fmt_fork]) ''fmt'' = Some (pkg_fmt_fork\<lparr>ID := ''fmt''\<rparr>)
   \<and> \<not> Standard (pkg_fmt_fork\<lparr>ID := ''fmt''\<rparr>)
   \<and> \<not> index_flagged (Add emptyRegistry [pkg_fmt, pkg_fmt_fork])"
proof -
  let ?R = "Add emptyRegistry [pkg_fmt, pkg_fmt_fork]"
  have s: "stdlib ?R ''fmt'' = Some ''fmt''"
    by (simp add: stdlib_Add1 pkg_fmt_def pkg_fmt_fork_def)
  have l: "lookup ?R ''fmt'' = Some (pkg_fmt_fork\<lparr>ID := ''fmt''\<rparr>)"
    by (simp add: lookup_Add1 pkg_fmt_def pkg_fmt_fork_def rewritePackage_def)
  have n: "\<not> Standard (pkg_fmt_fork\<lparr>ID := ''fmt''\<rparr>)" by (simp add: pkg_fmt_fork_def)
  from s l n have "\<not> index_flagged ?R" by (auto simp: index_flagged_def)
  with s l n show ?thesis by simp
qed

subsection \<open>The roots of a match\<close>

lemma add_root_set: "set (add_root r rs) = insert r (set rs)"
  by (auto simp: add_root_def)

lemma add_root_distinct: "distinct rs \<Longrightarrow> distinct (add_root r rs)"
  by (simp add: add_root_def)

lemma fold_stdlib_roots_set:
  "set (fold (\<lambda>(k, pkg) rs. if Standard pkg then add_root (ID pkg) rs else rs) ps rs)
     = set rs \<union> {ID pkg |k pkg. (k, pkg) \<in> set ps \<and> Standard pkg}"
proof (induction ps arbitrary: rs)
  case Nil
  then show ?case by simp
next
  case (Cons p ps)
  obtain k pkg where p: "p = (k, pkg)" by (cases p)
  show ?case
  proof (cases "Standard pkg")
    case True
    with p Cons.IH [of "add_root (ID pkg) rs"] show ?thesis
      by (auto simp: add_root_set)
  next
    case False
    with p Cons.IH [of rs] show ?thesis by auto
  qed
qed

lemma fold_stdlib_roots_distinct:
  "distinct rs \<Longrightarrow>
     distinct (fold (\<lambda>(k, pkg) rs. if Standard pkg then add_root (ID pkg) rs else rs) ps rs)"
  by (induction ps arbitrary: rs) (auto simp: add_root_distinct)

lemma stdlib_roots_set:
  "keys_unique pr \<Longrightarrow>
     set (stdlib_roots pr rs) = set rs \<union> {ID pkg |k pkg. lookup pr k = Some pkg \<and> Standard pkg}"
  by (simp add: stdlib_roots_def fold_stdlib_roots_set keys_unique_def lookup_def)

lemma stdlib_roots_distinct: "distinct rs \<Longrightarrow> distinct (stdlib_roots pr rs)"
  by (simp add: stdlib_roots_def fold_stdlib_roots_distinct)

lemma Match_roots_set:
  "keys_unique pr \<Longrightarrow>
     set (Match_roots stdlibLabel pr rs labels)
       = set rs \<union> (\<Union>l \<in> set labels. label_roots stdlibLabel pr l)"
proof (induction labels arbitrary: rs)
  case Nil
  then show ?case by simp
next
  case (Cons l labels)
  show ?case
  proof (cases "anchor l = stdlibLabel")
    case True
    with Cons.IH [OF Cons.prems, of "stdlib_roots pr rs"] Cons.prems show ?thesis
      by (simp add: stdlib_roots_set label_roots_def Un_assoc)
  next
    case False
    show ?thesis
    proof (cases "lookup pr (anchor l @ ''_xtest'') = None")
      case True
      with False Cons.IH [OF Cons.prems, of "add_root (anchor l) rs"] show ?thesis
        by (simp add: add_root_set label_roots_def Let_def)
    next
      case x: False
      with False
        Cons.IH [OF Cons.prems, of "add_root (anchor l @ ''_xtest'') (add_root (anchor l) rs)"]
      show ?thesis
        by (simp add: add_root_set label_roots_def Let_def) blast
    qed
  qed
qed

lemma Match_roots_distinct:
  "distinct rs \<Longrightarrow> distinct (Match_roots stdlibLabel pr rs labels)"
  by (induction labels arbitrary: rs)
     (simp_all add: Let_def add_root_distinct stdlib_roots_distinct)

text \<open>
  Claim C8. \<^verbatim>\<open>Match\<close> puts the anchor \<^verbatim>\<open>@\<close> before a label that does not start with it. Its roots
  are, for the labels together, what \<open>label_roots\<close> gives each of them: the identities of
  all flagged packages for the standard-library label, else the label and its \<^verbatim>\<open>_xtest\<close>
  companion when the registry holds one. No root is listed twice, and the roots are
  walked as \<^verbatim>\<open>Query\<close> walks its roots.
\<close>

theorem Match_roots_of_labels:
  assumes "keys_unique pr"
  shows "(prefix ''@'' l \<longrightarrow> anchor l = l)
         \<and> (\<not> prefix ''@'' l \<longrightarrow> anchor l = ''@'' @ l)
         \<and> set (Match_roots stdlibLabel pr [] labels) = (\<Union>l \<in> set labels. label_roots stdlibLabel pr l)
         \<and> distinct (Match_roots stdlibLabel pr [] labels)
         \<and> Match n stdlibLabel pr labels = Query n pr (Match_roots stdlibLabel pr [] labels)"
  using Match_roots_set [OF assms, of stdlibLabel "[]" labels]
    Match_roots_distinct [of "[]" stdlibLabel pr labels]
  by (simp add: anchor_def Match_def Query_def)

theorem Match_roots_of_labels_witness:
  "keys_unique reg_labels
   \<and> anchor ''//pkg:lib'' = ''@//pkg:lib'' \<and> anchor ''@//pkg:lib'' = ''@//pkg:lib''
   \<and> Match_roots ''@io_bazel_rules_go//:stdlib'' reg_labels [] labels_ex
       = [''@//pkg:lib'', ''@//pkg:lib_xtest'', ''fmt'', ''os'', ''@//other:lib'']
   \<and> (\<Union>l \<in> set labels_ex. label_roots ''@io_bazel_rules_go//:stdlib'' reg_labels l)
       = {''@//pkg:lib'', ''@//pkg:lib_xtest'', ''fmt'', ''os'', ''@//other:lib''}
   \<and> Match 6 ''@io_bazel_rules_go//:stdlib'' reg_labels labels_ex
       = Query 6 reg_labels [''@//pkg:lib'', ''@//pkg:lib_xtest'', ''fmt'', ''os'', ''@//other:lib'']"
proof -
  have u: "keys_unique reg_labels" by (simp add: keys_unique_def reg_labels_def)
  have r: "Match_roots ''@io_bazel_rules_go//:stdlib'' reg_labels [] labels_ex
       = [''@//pkg:lib'', ''@//pkg:lib_xtest'', ''fmt'', ''os'', ''@//other:lib'']"
    by (simp add: labels_ex_def anchor_def add_root_def stdlib_roots_def lookup_def reg_labels_def
        lib_def lib_xtest_def std_fmt_def std_os_def)
  from Match_roots_of_labels [OF u, of "''//pkg:lib''" "''@io_bazel_rules_go//:stdlib''" labels_ex 6]
    Match_roots_of_labels [OF u, of "''@//pkg:lib''" "''@io_bazel_rules_go//:stdlib''" labels_ex 6]
    u r
  show ?thesis by auto
qed

subsection \<open>Resolving imports\<close>

lemma ResolveImports_loop_append:
  "ResolveImports_loop step split pr (xs @ ys) =
     (case ResolveImports_loop step split pr xs of
        (Some err, pr1) \<Rightarrow> (Some err, pr1)
      | (None, pr1) \<Rightarrow> ResolveImports_loop step split pr1 ys)"
  by (induction step split pr xs rule: ResolveImports_loop.induct)
     (auto split: option.splits prod.splits)

lemma ResolveImports_loop_fails:
  assumes "ResolveImports_loop step split pr ks1 = (None, pr1)" "lookup pr1 k = Some pkg"
    "step (resolve pr1) pkg = (pkg1, Some err)"
  shows "ResolveImports_loop step split pr (ks1 @ k # ks2) = (Some err, store k pkg1 pr1)"
  using assms by (simp add: ResolveImports_loop_append)

lemma ResolveImports_loop_error_source:
  "fst (ResolveImports_loop step split pr ks) = Some err \<Longrightarrow>
   \<exists>ks1 k ks2 pr1 pkg pkg1. ks = ks1 @ k # ks2
     \<and> ResolveImports_loop step split pr ks1 = (None, pr1)
     \<and> lookup pr1 k = Some pkg \<and> step (resolve pr1) pkg = (pkg1, Some err)"
proof (induction ks arbitrary: pr)
  case Nil
  then show ?case by simp
next
  case (Cons k ks)
  let ?goal = "\<exists>ks1 k' ks2 pr1 pkg pkg1. k # ks = ks1 @ k' # ks2
     \<and> ResolveImports_loop step split pr ks1 = (None, pr1)
     \<and> lookup pr1 k' = Some pkg \<and> step (resolve pr1) pkg = (pkg1, Some err)"
  have later: ?goal
    if run: "\<And>ks1. ResolveImports_loop step split pr (k # ks1) = ResolveImports_loop step split pr' ks1"
      and e: "fst (ResolveImports_loop step split pr' ks) = Some err" for pr'
  proof -
    from Cons.IH [OF e] obtain ks1 k' ks2 pr1 pkg pkg1 where
      "ks = ks1 @ k' # ks2" "ResolveImports_loop step split pr' ks1 = (None, pr1)"
      "lookup pr1 k' = Some pkg" "step (resolve pr1) pkg = (pkg1, Some err)" by blast
    with run [of ks1] have "k # ks = (k # ks1) @ k' # ks2"
      "ResolveImports_loop step split pr (k # ks1) = (None, pr1)"
      "lookup pr1 k' = Some pkg" "step (resolve pr1) pkg = (pkg1, Some err)" by simp_all
    then show ?thesis by blast
  qed
  show ?case
  proof (cases "lookup pr k")
    case None
    with Cons.prems later [of pr] show ?thesis by simp
  next
    case (Some pkg)
    obtain pkg1 e where s: "step (resolve pr) pkg = (pkg1, e)" by (cases "step (resolve pr) pkg")
    show ?thesis
    proof (cases e)
      case (Some err')
      with Cons.prems \<open>lookup pr k = Some pkg\<close> s have "err' = err" by simp
      with Some s \<open>lookup pr k = Some pkg\<close>
      have "k # ks = [] @ k # ks" "ResolveImports_loop step split pr [] = (None, pr)"
        "lookup pr k = Some pkg" "step (resolve pr) pkg = (pkg1, Some err)" by simp_all
      then show ?thesis by blast
    next
      case None
      obtain pkg2 t where sp: "split pkg1 = (pkg2, t)" by (cases "split pkg1")
      show ?thesis
      proof (cases t)
        case None
        with \<open>e = None\<close> \<open>lookup pr k = Some pkg\<close> s sp Cons.prems later [of "store k pkg2 pr"]
        show ?thesis by simp
      next
        case (Some testFp)
        with \<open>e = None\<close> \<open>lookup pr k = Some pkg\<close> s sp Cons.prems
          later [of "store (ID testFp) testFp (store k pkg2 pr)"]
        show ?thesis by simp
      qed
    qed
  qed
qed

lemma stdlib_ResolveImports_loop:
  "stdlib (snd (ResolveImports_loop step split pr ks)) = stdlib pr"
  by (induction step split pr ks rule: ResolveImports_loop.induct)
     (auto simp: stdlib_store split: option.splits prod.splits)

lemma ResolveImports_loop_snoc:
  assumes "ResolveImports_loop step split pr ks = (None, pr')"
  shows "ResolveImports_loop step split pr (ks @ [k]) = ResolveImports_loop step split pr' [k]"
  using assms by (simp add: ResolveImports_loop_append)

lemma Imports_fill_unresolved:
  "Imports (fill_unresolved (resolve pr) pkg)
     = map (\<lambda>(path, target).
              (path, if target = [] then (case stdlib pr path of Some pkgID \<Rightarrow> pkgID | None \<Rightarrow> [])
                     else target))
         (Imports pkg)"
  by (simp add: fill_unresolved_def resolve_def case_prod_unfold)

text \<open>
  Claim C9. The resolver that \<^verbatim>\<open>ResolveImports\<close> hands to each package gives the identity
  that the index holds for a path, and the empty string, never an error, when it holds
  none; the index is the same before and after. For every key the loop comes to, the
  package stored under it is handed to the import resolution of the package with that
  resolver, and what it leaves is split and stored back under the key: when the import
  resolution does what the spec says of it and nothing is split, the package in the
  registry has every unresolved edge set to the indexed identity, or to the empty string.
  \<^verbatim>\<open>ResolveImports\<close> returns an error exactly when the import resolution of a package that
  the loop comes to returns it; it returns at once, with the keys after that one left
  alone. The split has no error to return, and a test package that it gives is stored
  under its own identity.
\<close>

theorem ResolveImports_errors:
  "(stdlib pr path = Some pkgID \<longrightarrow> resolve pr path = pkgID)
   \<and> (stdlib pr path = None \<longrightarrow> resolve pr path = [])
   \<and> stdlib (snd (ResolveImports step split order pr)) = stdlib pr
   \<and> ResolveImports step split [] pr = (None, pr)
   \<and> (fst (ResolveImports step split order pr) = Some err \<longleftrightarrow>
        (\<exists>seen key todo pr1 p p1. order = seen @ key # todo
           \<and> ResolveImports step split seen pr = (None, pr1)
           \<and> lookup pr1 key = Some p \<and> step (resolve pr1) p = (p1, Some err)))
   \<and> (ResolveImports step split ks pr = (None, pr') \<and> lookup pr' k = None
      \<longrightarrow> ResolveImports step split (ks @ [k]) pr = (None, pr'))
   \<and> (ResolveImports step split ks pr = (None, pr') \<and> lookup pr' k = Some pkg
        \<and> step (resolve pr') pkg = (pkg', Some err)
      \<longrightarrow> ResolveImports step split (ks @ k # rest) pr = (Some err, store k pkg' pr')
          \<and> lookup (store k pkg' pr') k = Some pkg')
   \<and> (ResolveImports step split ks pr = (None, pr') \<and> lookup pr' k = Some pkg
        \<and> step (resolve pr') pkg = (pkg', None) \<and> split pkg' = (pkg'', None)
      \<longrightarrow> ResolveImports step split (ks @ [k]) pr = (None, store k pkg'' pr')
          \<and> lookup (store k pkg'' pr') k = Some pkg'')
   \<and> (ResolveImports step split ks pr = (None, pr') \<and> lookup pr' k = Some pkg
        \<and> step (resolve pr') pkg = (pkg', None) \<and> split pkg' = (pkg'', Some testFp)
      \<longrightarrow> ResolveImports step split (ks @ [k]) pr
            = (None, store (ID testFp) testFp (store k pkg'' pr'))
          \<and> lookup (store (ID testFp) testFp (store k pkg'' pr')) (ID testFp) = Some testFp
          \<and> (ID testFp \<noteq> k \<longrightarrow>
                lookup (store (ID testFp) testFp (store k pkg'' pr')) k = Some pkg''))
   \<and> (ResolveImports step split ks pr = (None, pr') \<and> lookup pr' k = Some pkg
        \<and> step (resolve pr') pkg = (fill_unresolved (resolve pr') pkg, None)
        \<and> split (fill_unresolved (resolve pr') pkg) = (fill_unresolved (resolve pr') pkg, None)
      \<longrightarrow> (\<exists>node. lookup (snd (ResolveImports step split (ks @ [k]) pr)) k = Some node
            \<and> Imports node
                = map (\<lambda>(path, target).
                         (path, if target = []
                                then (case stdlib pr path of Some pkgID \<Rightarrow> pkgID | None \<Rightarrow> [])
                                else target))
                    (Imports pkg)))"
proof -
  have r1: "stdlib pr path = Some pkgID \<longrightarrow> resolve pr path = pkgID"
    by (simp add: resolve_def)
  have r2: "stdlib pr path = None \<longrightarrow> resolve pr path = []"
    by (simp add: resolve_def)
  have i: "stdlib (snd (ResolveImports step split order pr)) = stdlib pr"
    by (simp add: ResolveImports_def stdlib_ResolveImports_loop)
  have z: "ResolveImports step split [] pr = (None, pr)"
    by (simp add: ResolveImports_def)
  have a: "fst (ResolveImports step split order pr) = Some err \<longleftrightarrow>
        (\<exists>seen key todo pr1 p p1. order = seen @ key # todo
           \<and> ResolveImports step split seen pr = (None, pr1)
           \<and> lookup pr1 key = Some p \<and> step (resolve pr1) p = (p1, Some err))"
    unfolding ResolveImports_def
    using ResolveImports_loop_error_source [of step split pr order err]
      ResolveImports_loop_fails [of step split pr]
    by fastforce
  have n: "ResolveImports step split ks pr = (None, pr') \<and> lookup pr' k = None
      \<longrightarrow> ResolveImports step split (ks @ [k]) pr = (None, pr')"
    by (simp add: ResolveImports_def ResolveImports_loop_append)
  have b: "ResolveImports step split ks pr = (None, pr') \<and> lookup pr' k = Some pkg
        \<and> step (resolve pr') pkg = (pkg', Some err)
      \<longrightarrow> ResolveImports step split (ks @ k # rest) pr = (Some err, store k pkg' pr')
          \<and> lookup (store k pkg' pr') k = Some pkg'"
    by (simp add: ResolveImports_def ResolveImports_loop_append lookup_store)
  have c0: "ResolveImports step split (ks @ [k]) pr = (None, store k q pr')"
    if "ResolveImports step split ks pr = (None, pr')" "lookup pr' k = Some pkg"
      "step (resolve pr') pkg = (p, None)" "split p = (q, None)" for p q
    using that by (simp add: ResolveImports_def ResolveImports_loop_append)
  have c1: "ResolveImports step split ks pr = (None, pr') \<and> lookup pr' k = Some pkg
        \<and> step (resolve pr') pkg = (pkg', None) \<and> split pkg' = (pkg'', None)
      \<longrightarrow> ResolveImports step split (ks @ [k]) pr = (None, store k pkg'' pr')
          \<and> lookup (store k pkg'' pr') k = Some pkg''"
    using c0 [of pkg' pkg''] by (simp add: lookup_store)
  have c: "ResolveImports step split ks pr = (None, pr') \<and> lookup pr' k = Some pkg
        \<and> step (resolve pr') pkg = (pkg', None) \<and> split pkg' = (pkg'', Some testFp)
      \<longrightarrow> ResolveImports step split (ks @ [k]) pr
            = (None, store (ID testFp) testFp (store k pkg'' pr'))
          \<and> lookup (store (ID testFp) testFp (store k pkg'' pr')) (ID testFp) = Some testFp
          \<and> (ID testFp \<noteq> k \<longrightarrow>
                lookup (store (ID testFp) testFp (store k pkg'' pr')) k = Some pkg'')"
    by (simp add: ResolveImports_def ResolveImports_loop_append lookup_store)
  have f: "ResolveImports step split ks pr = (None, pr') \<and> lookup pr' k = Some pkg
        \<and> step (resolve pr') pkg = (fill_unresolved (resolve pr') pkg, None)
        \<and> split (fill_unresolved (resolve pr') pkg) = (fill_unresolved (resolve pr') pkg, None)
      \<longrightarrow> (\<exists>node. lookup (snd (ResolveImports step split (ks @ [k]) pr)) k = Some node
            \<and> Imports node
                = map (\<lambda>(path, target).
                         (path, if target = []
                                then (case stdlib pr path of Some pkgID \<Rightarrow> pkgID | None \<Rightarrow> [])
                                else target))
                    (Imports pkg))"
  proof (intro impI, elim conjE)
    assume run: "ResolveImports step split ks pr = (None, pr')" and l: "lookup pr' k = Some pkg"
      and st: "step (resolve pr') pkg = (fill_unresolved (resolve pr') pkg, None)"
      and sp: "split (fill_unresolved (resolve pr') pkg) = (fill_unresolved (resolve pr') pkg, None)"
    from run have "stdlib pr' = stdlib pr"
      using stdlib_ResolveImports_loop [of step split pr ks] by (simp add: ResolveImports_def)
    then have "resolve pr' = resolve pr" by (simp add: resolve_def fun_eq_iff)
    with Imports_fill_unresolved [of pr pkg]
    have "Imports (fill_unresolved (resolve pr') pkg)
        = map (\<lambda>(path, target).
                 (path, if target = []
                        then (case stdlib pr path of Some pkgID \<Rightarrow> pkgID | None \<Rightarrow> [])
                        else target))
            (Imports pkg)"
      by simp
    moreover from c0 [OF run l st sp]
    have "lookup (snd (ResolveImports step split (ks @ [k]) pr)) k
        = Some (fill_unresolved (resolve pr') pkg)"
      by (simp add: lookup_store)
    ultimately show "\<exists>node. lookup (snd (ResolveImports step split (ks @ [k]) pr)) k = Some node
            \<and> Imports node
                = map (\<lambda>(path, target).
                         (path, if target = []
                                then (case stdlib pr path of Some pkgID \<Rightarrow> pkgID | None \<Rightarrow> [])
                                else target))
                    (Imports pkg)"
      by blast
  qed
  show ?thesis
    by (rule conjI, rule r1, rule conjI, rule r2, rule conjI, rule i, rule conjI, rule z,
        rule conjI, rule a, rule conjI, rule n, rule conjI, rule b, rule conjI, rule c1,
        rule conjI, rule c, rule f)
qed

lemma step_ex_tested:
  "step_ex (resolve reg_res) pkg_tested = (pkg_tested\<lparr>Imports := [(''fmt'', ''fmt'')]\<rparr>, None)"
  by (simp add: step_ex_def fill_unresolved_def resolve_def reg_res_def pkg_tested_def)

lemma split_ex_tested:
  "split_ex (pkg_tested\<lparr>Imports := [(''fmt'', ''fmt'')]\<rparr>) = (pkg_tested_split, Some pkg_tested_xtest)"
  by (simp add: split_ex_def pkg_tested_def pkg_tested_split_def pkg_tested_xtest_def suffix_to_prefix)

lemma step_ex_nofiles:
  "step_ex r pkg_nofiles = (pkg_nofiles, Some (ResolveFailure ''example.com/gen''))"
  by (simp add: step_ex_def fill_unresolved_def pkg_nofiles_def)

lemma fill_plain: "fill_unresolved (resolve reg_plain) pkg_plain = pkg_plain_resolved"
  by (simp add: fill_unresolved_def resolve_def reg_plain_def pkg_plain_def pkg_plain_resolved_def)

lemma step_ex_plain:
  "step_ex (resolve reg_plain) pkg_plain = (fill_unresolved (resolve reg_plain) pkg_plain, None)"
  by (simp add: step_ex_def pkg_plain_def)

lemma split_ex_plain: "split_ex pkg_plain_resolved = (pkg_plain_resolved, None)"
  by (simp add: split_ex_def pkg_plain_resolved_def pkg_plain_def suffix_to_prefix)

theorem ResolveImports_errors_witness:
  "stdlib reg_res ''fmt'' = Some ''fmt'' \<and> resolve reg_res ''fmt'' = ''fmt''
   \<and> stdlib reg_res ''os'' = None \<and> resolve reg_res ''os'' = []
   \<and> ResolveImports step_ex split_ex [''example.com/app''] reg_res = (None, reg_res1)
   \<and> lookup reg_res1 ''example.com/app_xtest'' = Some pkg_tested_xtest
   \<and> lookup reg_res1 ''example.com/app'' = Some pkg_tested_split
   \<and> ResolveImports step_ex split_ex [''example.com/app'', ''example.com/gen'', ''fmt''] reg_res
       = (Some (ResolveFailure ''example.com/gen''), reg_res1)
   \<and> lookup reg_res1 ''example.com/gen'' = Some pkg_nofiles
   \<and> ResolveImports step_ex split_ex [''example.com/plain''] reg_plain = (None, reg_plain1)
   \<and> lookup reg_plain1 ''example.com/plain'' = Some pkg_plain_resolved
   \<and> Imports pkg_plain_resolved = [(''fmt'', ''fmt''), (''unknown/x'', [])]
   \<and> lookup reg_plain1 ''missing'' = None
   \<and> ResolveImports step_ex split_ex [''example.com/plain'', ''missing''] reg_plain = (None, reg_plain1)
   \<and> stdlib (snd (ResolveImports step_ex split_ex [''example.com/plain'', ''missing''] reg_plain))
       = stdlib reg_plain"
proof -
  have s1: "stdlib reg_res ''fmt'' = Some ''fmt''" and s2: "stdlib reg_res ''os'' = None"
    by (simp_all add: reg_res_def)
  have l0: "lookup reg_res ''example.com/app'' = Some pkg_tested"
    by (simp add: lookup_def reg_res_def)
  have e0: "ResolveImports step_ex split_ex [] reg_res = (None, reg_res)"
    using ResolveImports_errors [where pr = reg_res and step = step_ex and split = split_ex]
    by simp
  have st: "store (ID pkg_tested_xtest) pkg_tested_xtest (store ''example.com/app'' pkg_tested_split reg_res)
      = reg_res1"
    by (simp add: store_def reg_res_def reg_res1_def pkg_tested_xtest_def)
  have idx: "ID pkg_tested_xtest \<noteq> ''example.com/app''" by (simp add: pkg_tested_xtest_def)
  from ResolveImports_errors [where pr = reg_res and ks = "[]" and pr' = reg_res
      and k = "''example.com/app''" and pkg = pkg_tested
      and pkg' = "pkg_tested\<lparr>Imports := [(''fmt'', ''fmt'')]\<rparr>" and pkg'' = pkg_tested_split
      and testFp = pkg_tested_xtest and step = step_ex and split = split_ex]
    e0 l0 step_ex_tested split_ex_tested st idx
  have r1: "ResolveImports step_ex split_ex [''example.com/app''] reg_res = (None, reg_res1)"
    and x: "lookup reg_res1 (ID pkg_tested_xtest) = Some pkg_tested_xtest"
    and y: "lookup reg_res1 ''example.com/app'' = Some pkg_tested_split" by simp_all
  have l1: "lookup reg_res1 ''example.com/gen'' = Some pkg_nofiles"
    by (simp add: lookup_def reg_res1_def)
  have st1: "store ''example.com/gen'' pkg_nofiles reg_res1 = reg_res1"
    by (simp add: store_def reg_res1_def)
  from ResolveImports_errors [where pr = reg_res and ks = "[''example.com/app'']" and pr' = reg_res1
      and k = "''example.com/gen''" and pkg = pkg_nofiles and pkg' = pkg_nofiles
      and err = "ResolveFailure ''example.com/gen''" and rest = "[''fmt'']"
      and step = step_ex and split = split_ex]
    r1 l1 step_ex_nofiles [of "resolve reg_res1"] st1
  have r2: "ResolveImports step_ex split_ex [''example.com/app'', ''example.com/gen'', ''fmt''] reg_res
       = (Some (ResolveFailure ''example.com/gen''), reg_res1)" by simp
  from ResolveImports_errors [where pr = reg_res and path = "''fmt''" and pkgID = "''fmt''"]
    ResolveImports_errors [where pr = reg_res and path = "''os''"] s1 s2
  have rs: "resolve reg_res ''fmt'' = ''fmt''" "resolve reg_res ''os'' = []" by simp_all
  have p0: "ResolveImports step_ex split_ex [] reg_plain = (None, reg_plain)"
    using ResolveImports_errors [where pr = reg_plain and step = step_ex and split = split_ex]
    by simp
  have lp: "lookup reg_plain ''example.com/plain'' = Some pkg_plain"
    by (simp add: lookup_def reg_plain_def)
  have stp: "store ''example.com/plain'' pkg_plain_resolved reg_plain = reg_plain1"
    by (simp add: store_def reg_plain_def reg_plain1_def)
  from ResolveImports_errors [where pr = reg_plain and ks = "[]" and pr' = reg_plain
      and k = "''example.com/plain''" and pkg = pkg_plain
      and pkg' = pkg_plain_resolved and pkg'' = pkg_plain_resolved
      and step = step_ex and split = split_ex]
    p0 lp step_ex_plain split_ex_plain fill_plain stp
  have p1: "ResolveImports step_ex split_ex [''example.com/plain''] reg_plain = (None, reg_plain1)"
    and p2: "lookup reg_plain1 ''example.com/plain'' = Some pkg_plain_resolved" by simp_all
  have lm: "lookup reg_plain1 ''missing'' = None" by (simp add: lookup_def reg_plain1_def)
  from ResolveImports_errors [where pr = reg_plain and ks = "[''example.com/plain'']"
      and pr' = reg_plain1 and k = "''missing''" and step = step_ex and split = split_ex] p1 lm
  have p3: "ResolveImports step_ex split_ex [''example.com/plain'', ''missing''] reg_plain
      = (None, reg_plain1)" by simp
  from ResolveImports_errors [where pr = reg_plain and step = step_ex and split = split_ex
      and order = "[''example.com/plain'', ''missing'']"]
  have p4: "stdlib (snd (ResolveImports step_ex split_ex [''example.com/plain'', ''missing''] reg_plain))
       = stdlib reg_plain" by simp
  from ResolveImports_errors [where pr = reg_plain and ks = "[]" and pr' = reg_plain
      and k = "''example.com/plain''" and pkg = pkg_plain
      and step = step_ex and split = split_ex]
    p0 lp step_ex_plain split_ex_plain fill_plain p1 p2
  have p5: "Imports pkg_plain_resolved
      = map (\<lambda>(path, target).
               (path, if target = []
                      then (case stdlib reg_plain path of Some pkgID \<Rightarrow> pkgID | None \<Rightarrow> [])
                      else target))
          (Imports pkg_plain)" by simp
  have p6: "Imports pkg_plain_resolved = [(''fmt'', ''fmt''), (''unknown/x'', [])]"
    by (simp add: pkg_plain_resolved_def)
  from s1 s2 rs r1 x y r2 l1 p1 p2 p6 lm p3 p4 show ?thesis
    by (simp add: pkg_tested_xtest_def)
qed

end
